theory Spec2Isabelle
  imports Complex_Main "HOL-Library.Signed_Division" "HOL-Library.Monad_Syntax"
begin

chapter \<open>The client and window model of the Fluxbox window manager\<close>

text \<open>
  A shallow embedding of \<^verbatim>\<open>src/WinClient.cc\<close> and of the multi-client, focus and
  stacking parts of \<^verbatim>\<open>src/Window.cc\<close>. Pointers to \<^verbatim>\<open>WinClient\<close> objects are
  modelled by the X window handle of the client (each client has exactly one), pointers
  to \<^verbatim>\<open>FluxboxWindow\<close> objects by a frame identifier; the null pointer is \<open>None\<close>.
\<close>

section \<open>Machine arithmetic\<close>

text \<open>
  \<^verbatim>\<open>int\<close> and \<^verbatim>\<open>unsigned int\<close> are 32 bits wide. Values are carried as
  mathematical integers and every conversion is written out: \<open>u32\<close> reduces to the
  unsigned range, \<open>s32\<close> reads a value as two's complement (what
  \<^verbatim>\<open>static_cast<signed>\<close> and an assignment to an \<^verbatim>\<open>int\<close> do). Signed results
  that leave the range are wrapped the same way.
\<close>

definition u32 :: "int \<Rightarrow> int" where
  "u32 x = x mod 2 ^ 32"

definition s32 :: "int \<Rightarrow> int" where
  "s32 x = (x + 2 ^ 31) mod 2 ^ 32 - 2 ^ 31"

text \<open>
  Signed division of C truncates towards zero. It traps on a zero divisor and on
  \<^verbatim>\<open>INT_MIN / -1\<close>; the trap is the value \<open>None\<close>.
\<close>

definition c_div :: "int \<Rightarrow> int \<Rightarrow> int option" where
  "c_div a b = (if b = 0 \<or> (a = - (2 ^ 31) \<and> b = - 1) then None else Some (a sdiv b))"

text \<open>Unsigned remainder; a zero divisor traps.\<close>

definition c_umod :: "int \<Rightarrow> int \<Rightarrow> int option" where
  "c_umod a b = (if b = 0 then None else Some (a mod b))"

subsection \<open>Double precision\<close>

text \<open>
  A finite \<^verbatim>\<open>double\<close> is the rational number it denotes. Every arithmetic operation
  computes the exact result and rounds it to 53 significant bits, ties to even, as IEEE
  754 binary64 does in its normal range; \<open>fl\<close> is that rounding. The operands below
  come from 32-bit integers, so exponents stay far inside the normal range.
\<close>

definition pow2 :: "int \<Rightarrow> rat" where
  "pow2 k = (if 0 \<le> k then 2 ^ nat k else 1 / 2 ^ nat (- k))"

text \<open>The number of binary digits of a positive integer.\<close>

function bitlen :: "int \<Rightarrow> int" where
  "bitlen n = (if n \<le> 0 then 0 else 1 + bitlen (n div 2))"
  by pat_completeness auto
termination
  by (relation "measure nat") auto

declare bitlen.simps [simp del]

text \<open>The exponent \<open>e\<close> with \<open>2^e \<le> |x| < 2^(e+1)\<close>, for \<open>x \<noteq> 0\<close>.\<close>

definition binade :: "rat \<Rightarrow> int" where
  "binade x = (case quotient_of \<bar>x\<bar> of (p, q) \<Rightarrow>
      (let k = bitlen p - bitlen q
       in if pow2 k \<le> \<bar>x\<bar> then k else k - 1))"

definition round_half_even :: "rat \<Rightarrow> int" where
  "round_half_even m = (let f = \<lfloor>m\<rfloor>; r = m - of_int f
     in if r < 1 / 2 then f else if 1 / 2 < r then f + 1 else if even f then f else f + 1)"

definition fl :: "rat \<Rightarrow> rat" where
  "fl x = (if x = 0 then 0 else
     (let e = binade x in of_int (round_half_even (x * pow2 (52 - e))) * pow2 (e - 52)))"

text \<open>
  \<^verbatim>\<open>static_cast<int>(d)\<close> truncates towards zero; the conversion is undefined when the
  truncated value does not fit an \<^verbatim>\<open>int\<close>.
\<close>

definition double_to_int :: "rat \<Rightarrow> int option" where
  "double_to_int d = (let t = (if 0 \<le> d then \<lfloor>d\<rfloor> else - \<lfloor>- d\<rfloor>)
     in if - (2 ^ 31) \<le> t \<and> t < 2 ^ 31 then Some t else None)"

text \<open>
  The quotient of two non-negative doubles where the divisor may be zero
  (\<^verbatim>\<open>checkSizeHints\<close> divides by the height): the result is then infinite, or not a
  number for \<open>0 / 0\<close>. Comparisons with a NaN are false.
\<close>

datatype xdouble = Finite rat | PosInf | NaN

definition xdiv :: "rat \<Rightarrow> rat \<Rightarrow> xdouble" where
  "xdiv a b = (if b = 0 then (if a = 0 then NaN else PosInf) else Finite (fl (a / b)))"

fun xgreater :: "rat \<Rightarrow> xdouble \<Rightarrow> bool" where
  "xgreater a (Finite b) = (b < a)"
| "xgreater a PosInf = False"
| "xgreater a NaN = False"

fun xless :: "rat \<Rightarrow> xdouble \<Rightarrow> bool" where
  "xless a (Finite b) = (a < b)"
| "xless a PosInf = True"
| "xless a NaN = False"

section \<open>Size hints (WinClient.cc, lines 693--848)\<close>

text \<open>
  The \<^verbatim>\<open>SizeHints\<close> structure of a client. Its declaration is in \<^verbatim>\<open>WinClient.hh\<close>;
  the fields are the ones \<^verbatim>\<open>WinClient.cc\<close> reads and writes, of type
  \<^verbatim>\<open>unsigned int\<close> (the code casts them with \<^verbatim>\<open>static_cast<signed>\<close> before every
  signed comparison). A field holds a value in \<open>0 ..< 2^32\<close>.
\<close>

record SizeHints =
  min_width :: int
  max_width :: int
  min_height :: int
  max_height :: int
  width_inc :: int
  height_inc :: int
  min_aspect_x :: int
  max_aspect_x :: int
  min_aspect_y :: int
  max_aspect_y :: int
  base_width :: int
  base_height :: int

text \<open>\<^verbatim>\<open>closestPointToLine\<close>: the point of the line through the origin and
  \<open>(gradient, 1)\<close> nearest to \<open>(point_x, point_y)\<close>.\<close>

definition closestPointToLine :: "rat \<Rightarrow> rat \<Rightarrow> rat \<Rightarrow> rat \<times> rat" where
  "closestPointToLine point_x point_y gradient =
     (let u = fl (fl (fl (point_x * gradient) + point_y) / fl (fl (gradient * gradient) + 1))
      in (fl (u * gradient), u))"

text \<open>
  The aspect-ratio step of \<^verbatim>\<open>applySizeHints\<close> (lines 770--804). It returns the new
  width and height, or \<open>None\<close> where a conversion back to \<^verbatim>\<open>int\<close> is undefined.
  The subtractions of the base size are unsigned, as is the test
  \<^verbatim>\<open>(height - base_height) > 0\<close>.
\<close>

definition applyAspect :: "SizeHints \<Rightarrow> bool \<Rightarrow> int \<Rightarrow> int \<Rightarrow> (int \<times> int) option" where
  "applyAspect h maximizing width height =
     (if 0 < min_aspect_y h \<and> 0 < max_aspect_y h \<and> 0 < u32 (height - base_height h) then
        (let widthd = of_int (u32 (width - base_width h)) :: rat;
             heightd = of_int (u32 (height - base_height h)) :: rat;
             min = fl (of_int (min_aspect_x h) / of_int (min_aspect_y h));
             max = fl (of_int (max_aspect_x h) / of_int (max_aspect_y h));
             actual = fl (widthd / heightd)
         in if 0 < max \<and> 0 < min \<and> 0 < actual then
              (let (changed, widthd', heightd') =
                     (if actual < min then
                        (if maximizing then (True, widthd, fl (widthd / min))
                         else (case closestPointToLine widthd heightd min of
                                 (x, y) \<Rightarrow> (True, x, y)))
                      else if max < actual then
                        (if maximizing then (True, fl (heightd * max), heightd)
                         else (case closestPointToLine widthd heightd max of
                                 (x, y) \<Rightarrow> (True, x, y)))
                      else (False, widthd, heightd))
               in if changed then
                    do {
                      wi \<leftarrow> double_to_int widthd';
                      hi \<leftarrow> double_to_int heightd';
                      Some (s32 (u32 (wi + base_width h)), s32 (u32 (hi + base_height h)))
                    }
                  else Some (width, height))
            else Some (width, height))
      else Some (width, height))"

text \<open>
  \<^verbatim>\<open>WinClient::applySizeHints\<close>. The result is the new width and height followed by
  the two display values \<open>i\<close> and \<open>j\<close> (the number of increments).
\<close>

definition applySizeHints ::
  "SizeHints \<Rightarrow> int \<Rightarrow> int \<Rightarrow> bool \<Rightarrow> (int \<times> int \<times> int \<times> int) option" where
  "applySizeHints h width height maximizing =
     (let width1 = (if width < 0 \<or> width < s32 (min_width h) then s32 (min_width h) else width);
          height1 = (if height < 0 \<or> height < s32 (min_height h) then s32 (min_height h) else height);
          width2 = (if 0 < max_width h \<and> s32 (max_width h) < width1 then s32 (max_width h) else width1);
          height2 = (if 0 < max_height h \<and> s32 (max_height h) < height1 then s32 (max_height h) else height1)
      in do {
        (width3, height3) \<leftarrow> applyAspect h maximizing width2 height2;
        i \<leftarrow> c_div (s32 (width3 - s32 (base_width h))) (s32 (width_inc h));
        let width4 = s32 (s32 (i * s32 (width_inc h)) + s32 (base_width h));
        j \<leftarrow> c_div (s32 (height3 - s32 (base_height h))) (s32 (height_inc h));
        let height4 = s32 (s32 (j * s32 (height_inc h)) + s32 (base_height h));
        Some (width4, height4, i, j)
      })"

text \<open>
  \<^verbatim>\<open>WinClient::checkSizeHints\<close>; width and height are \<^verbatim>\<open>unsigned int\<close>. \<open>None\<close> is
  the trap of a remainder by a zero increment.
\<close>

definition checkSizeHints :: "SizeHints \<Rightarrow> int \<Rightarrow> int \<Rightarrow> bool option" where
  "checkSizeHints h width height =
     (if width < min_width h \<or> height < min_height h then Some False
      else if max_width h < width \<or> max_height h < height then Some False
      else do {
        rw \<leftarrow> c_umod (u32 (width - base_width h)) (width_inc h);
        if rw \<noteq> 0 then Some False
        else do {
          rh \<leftarrow> c_umod (u32 (height - base_height h)) (height_inc h);
          if rh \<noteq> 0 then Some False
          else
            (let ratio = xdiv (of_int width) (of_int height)
             in if 0 < min_aspect_y h \<and>
                   xgreater (fl (of_int (min_aspect_x h) / of_int (min_aspect_y h))) ratio
                then Some False
                else if 0 < max_aspect_y h \<and>
                   xless (fl (of_int (max_aspect_x h) / of_int (max_aspect_y h))) ratio
                then Some False
                else Some True)
        }
      })"

text \<open>The hint set of the specification's scenario: minimum 100x50, no maximum,
  increments 10x10, base 0x0, no aspect constraint.\<close>

definition scenario_hints :: SizeHints where
  "scenario_hints = \<lparr> min_width = 100, max_width = 0, min_height = 50, max_height = 0,
     width_inc = 10, height_inc = 10, min_aspect_x = 0, max_aspect_x = 0,
     min_aspect_y = 0, max_aspect_y = 0, base_width = 0, base_height = 0 \<rparr>"

text \<open>A window of fixed aspect ratio 2:1 with no other constraint.\<close>

definition aspect_hints :: SizeHints where
  "aspect_hints = \<lparr> min_width = 1, max_width = 0, min_height = 1, max_height = 0,
     width_inc = 1, height_inc = 1, min_aspect_x = 2, max_aspect_x = 2,
     min_aspect_y = 1, max_aspect_y = 1, base_width = 0, base_height = 0 \<rparr>"

text \<open>Hint sets whose values fit a signed \<^verbatim>\<open>int\<close> and whose increments are positive, as
  \<^verbatim>\<open>updateWMNormalHints\<close> leaves them for a client that sends non-negative values.\<close>

definition sane_hints :: "SizeHints \<Rightarrow> bool" where
  "sane_hints h \<longleftrightarrow>
     0 \<le> min_width h \<and> min_width h < 2 ^ 31 \<and> 0 \<le> min_height h \<and> min_height h < 2 ^ 31 \<and>
     0 \<le> max_width h \<and> max_width h < 2 ^ 31 \<and> 0 \<le> max_height h \<and> max_height h < 2 ^ 31 \<and>
     1 \<le> width_inc h \<and> width_inc h < 2 ^ 31 \<and> 1 \<le> height_inc h \<and> height_inc h < 2 ^ 31 \<and>
     0 \<le> base_width h \<and> base_width h < 2 ^ 31 \<and> 0 \<le> base_height h \<and> base_height h < 2 ^ 31"

definition no_aspect :: "SizeHints \<Rightarrow> bool" where
  "no_aspect h \<longleftrightarrow> min_aspect_y h = 0 \<or> max_aspect_y h = 0"

text \<open>
  The two integer steps of \<^verbatim>\<open>applySizeHints\<close> in one dimension, without the
  conversions: the clamp of lines 731--742 and the quantisation of lines 808--816. The
  lemmas below show that \<open>applySizeHints\<close> computes them when no value leaves the
  range of an \<^verbatim>\<open>int\<close>.
\<close>

definition clampSize :: "int \<Rightarrow> int \<Rightarrow> int \<Rightarrow> int" where
  "clampSize mn mx x = (let x1 = (if x < 0 \<or> x < mn then mn else x) in if 0 < mx \<and> mx < x1 then mx else x1)"

definition quantize :: "int \<Rightarrow> int \<Rightarrow> int \<Rightarrow> int" where
  "quantize b n x = (x - b) sdiv n * n + b"

section \<open>Clients, frames and the registry\<close>

type_synonym handle = nat
type_synonym fid = nat

text \<open>
  Modelled from the spec: the input model of a client, which \<^verbatim>\<open>getFocusMode()\<close>
  returns; its declaration is in \<^verbatim>\<open>WinClient.hh\<close>. The four models are the rows of the
  ICCCM matrix the specification lists (no input, passive, locally active, globally
  active).
\<close>

datatype FocusMode = F_NOINPUT | F_PASSIVE | F_LOCALLYACTIVE | F_GLOBALLYACTIVE

text \<open>
  The fields of a \<^verbatim>\<open>WinClient\<close> that the transient graph, the tab groups and the focus
  delegation read or write. \<open>group_left\<close> is the window property
  \<^verbatim>\<open>_FLUXBOX_GROUP_LEFT\<close> that \<^verbatim>\<open>setGroupLeftWindow\<close> writes (0 is \<^verbatim>\<open>None\<close>).
\<close>

record WinClient =
  transient_for :: "handle option"
  transients :: "handle list"
  m_modal :: bool
  m_modal_count :: int
  m_win :: "fid option"
  group_left :: handle
  focus_mode :: FocusMode
  accepts_input :: bool
  send_focus_message :: bool

text \<open>
  The fields of a \<^verbatim>\<open>FluxboxWindow\<close> (a frame): the tab list, the active client, the
  iconic flag, the reentrancy guard and the layer number; then what \<^verbatim>\<open>setInputFocus\<close>
  reads of the geometry: the position of the frame (\<^verbatim>\<open>int\<close>), its size and the border
  width of its window (\<^verbatim>\<open>unsigned int\<close>), and the size of its screen
  (\<^verbatim>\<open>unsigned int\<close>).
\<close>

record FluxboxWindow =
  m_clientlist :: "handle list"
  m_client :: "handle option"
  iconic :: bool
  oplock :: bool
  m_layernum :: int
  frame_x :: int
  frame_y :: int
  frame_width :: int
  frame_height :: int
  border_width :: int
  screen_width :: int
  screen_height :: int

text \<open>
  Requests to collaborators outside the modelled state are recorded in a trace, newest
  last: stacking requests to the layer manager, notifications of the screen, and the X
  requests that raise a client window or move the input focus.
\<close>

datatype event =
    LayerRaise fid
  | LayerLower fid
  | LayerMoveTo fid int
  | NetizenRaise handle
  | NetizenLower handle
  | XRaiseWindow handle
  | XSetInputFocus handle
  | TakeFocusMessage handle

text \<open>
  The state of the window manager. \<open>clients\<close> is the heap of \<^verbatim>\<open>WinClient\<close> objects
  together with the window search table of \<^verbatim>\<open>Fluxbox\<close> (a client is entered by its
  constructor and removed by its destructor); \<open>s_transient_wait\<close> is the static map of
  the same name; \<open>transient_hint\<close> is what \<^verbatim>\<open>XGetTransientForHint\<close> answers for a
  window (\<open>None\<close> when the call fails); \<open>x_gone\<close> tells whether a
  \<^verbatim>\<open>DestroyNotify\<close> or \<^verbatim>\<open>UnmapNotify\<close> for the window is queued, which is what
  \<^verbatim>\<open>validateClient\<close> asks the server; \<open>shutting_down\<close> is \<^verbatim>\<open>isShuttingdown()\<close> of
  the screen.
\<close>

record wm_state =
  clients :: "handle \<Rightarrow> WinClient option"
  frames :: "fid \<Rightarrow> FluxboxWindow option"
  s_transient_wait :: "handle \<Rightarrow> handle list option"
  transient_hint :: "handle \<Rightarrow> handle option"
  rootWindow :: handle
  x_gone :: "handle \<Rightarrow> bool"
  shutting_down :: bool
  screen_focused :: "handle option"
  focused_window :: "fid option"
  trace :: "event list"

definition update_client :: "handle \<Rightarrow> (WinClient \<Rightarrow> WinClient) \<Rightarrow> wm_state \<Rightarrow> wm_state" where
  "update_client c f s =
     (case clients s c of None \<Rightarrow> s | Some C \<Rightarrow> s\<lparr>clients := (clients s)(c \<mapsto> f C)\<rparr>)"

definition update_frame :: "fid \<Rightarrow> (FluxboxWindow \<Rightarrow> FluxboxWindow) \<Rightarrow> wm_state \<Rightarrow> wm_state" where
  "update_frame w f s =
     (case frames s w of None \<Rightarrow> s | Some W \<Rightarrow> s\<lparr>frames := (frames s)(w \<mapsto> f W)\<rparr>)"

definition emit :: "event \<Rightarrow> wm_state \<Rightarrow> wm_state" where
  "emit e s = s\<lparr>trace := trace s @ [e]\<rparr>"

text \<open>\<^verbatim>\<open>transientFor()\<close> of a client, \<open>None\<close> also for a handle that is no client.\<close>

definition transientFor :: "wm_state \<Rightarrow> handle \<Rightarrow> handle option" where
  "transientFor s c = (case clients s c of None \<Rightarrow> None | Some C \<Rightarrow> transient_for C)"

text \<open>
  Modelled from the spec: \<^verbatim>\<open>Fluxbox::searchWindow\<close> (in \<^verbatim>\<open>fluxbox.cc\<close>), the lookup in
  the process-wide mapping from window identifier to client.
\<close>

definition searchWindow :: "wm_state \<Rightarrow> handle \<Rightarrow> handle option" where
  "searchWindow s win = (case clients s win of None \<Rightarrow> None | Some C \<Rightarrow> Some win)"

text \<open>
  Modelled from the spec: \<^verbatim>\<open>addModal\<close>, \<^verbatim>\<open>removeModal\<close> and \<^verbatim>\<open>isModal\<close> of
  \<^verbatim>\<open>WinClient.hh\<close>. The parent keeps a count of modal transients, incremented and
  decremented as they attach and detach; a client is modal when it is itself marked
  modal.
\<close>

definition addModal :: "WinClient \<Rightarrow> WinClient" where
  "addModal C = C\<lparr>m_modal_count := m_modal_count C + 1\<rparr>"

definition removeModal :: "WinClient \<Rightarrow> WinClient" where
  "removeModal C = C\<lparr>m_modal_count := m_modal_count C - 1\<rparr>"

definition isModal :: "WinClient \<Rightarrow> bool" where
  "isModal C = m_modal C"

section \<open>The transient graph (WinClient.cc)\<close>

text \<open>
  \<^verbatim>\<open>removeTransientFromWaitingList\<close>: the client is removed from every waiting list and
  the lists that are empty afterwards are erased.
\<close>

definition removeTransientFromWaitingList :: "handle \<Rightarrow> wm_state \<Rightarrow> wm_state" where
  "removeTransientFromWaitingList this s =
     s\<lparr>s_transient_wait := (\<lambda>k. case s_transient_wait s k of None \<Rightarrow> None
          | Some l \<Rightarrow> (if removeAll this l = [] then None else Some (removeAll this l)))\<rparr>"

text \<open>\<^verbatim>\<open>s_transient_wait[win].push_back(this)\<close>; the index operator creates the entry.\<close>

definition wait_push_back :: "handle \<Rightarrow> handle \<Rightarrow> wm_state \<Rightarrow> wm_state" where
  "wait_push_back win this s =
     s\<lparr>s_transient_wait := (s_transient_wait s)
          (win \<mapsto> (case s_transient_wait s win of None \<Rightarrow> [] | Some l \<Rightarrow> l) @ [this])\<rparr>"

text \<open>
  Lines 276--283 of \<^verbatim>\<open>updateTransientInfo\<close>: the client leaves the list of its parent
  and forgets it. \<open>None\<close> stands for the dereference of a parent that was destroyed.
\<close>

definition unlink_from_parent :: "handle \<Rightarrow> wm_state \<Rightarrow> wm_state option" where
  "unlink_from_parent this s =
     (case clients s this of None \<Rightarrow> None
      | Some C \<Rightarrow>
         (case transient_for C of
            None \<Rightarrow> Some s
          | Some p \<Rightarrow>
             (case clients s p of None \<Rightarrow> None
              | Some P \<Rightarrow>
                 Some (update_client this (\<lambda>C. C\<lparr>transient_for := None\<rparr>)
                        (update_client p (\<lambda>P. (if m_modal C then removeModal else id)
                                               (P\<lparr>transients := removeAll this (transients P)\<rparr>)) s)))))"

text \<open>
  The loop of lines 331--334,
  \<^verbatim>\<open>for (w = this; w != 0; w = w->transient_for) if (this == w->transient_for) w->transient_for = 0;\<close>
  started at \<open>w\<close>. It need not terminate when the chain above \<open>w\<close> runs into a cycle that
  avoids \<open>this\<close>; not returning is the value \<open>None\<close>, as is following a pointer to a
  destroyed client.
\<close>

partial_function (option) break_transient_loop :: "handle \<Rightarrow> handle \<Rightarrow> wm_state \<Rightarrow> wm_state option" where
  "break_transient_loop this w s =
     (case clients s w of None \<Rightarrow> None
      | Some W \<Rightarrow>
         (case transient_for W of
            None \<Rightarrow> Some s
          | Some p \<Rightarrow>
              if p = this then Some (update_client w (\<lambda>W. W\<lparr>transient_for := None\<rparr>) s)
              else break_transient_loop this p s))"

text \<open>Lines 336--342: the client enters the list of its new parent.\<close>

definition enter_parent_list :: "handle \<Rightarrow> wm_state \<Rightarrow> wm_state option" where
  "enter_parent_list this s =
     (case clients s this of None \<Rightarrow> None
      | Some C \<Rightarrow>
         (case transient_for C of
            None \<Rightarrow> Some s
          | Some p \<Rightarrow>
             (case clients s p of None \<Rightarrow> None
              | Some P \<Rightarrow>
                 Some (update_client p (\<lambda>P. (if m_modal C then addModal else id)
                                               (P\<lparr>transients := transients P @ [this]\<rparr>)) s))))"

text \<open>
  \<^verbatim>\<open>WinClient::updateTransientInfo\<close>. The three early returns are the failure to read the
  hint, a client transient for itself and a client transient for the root window.
\<close>

definition updateTransientInfo :: "handle \<Rightarrow> wm_state \<Rightarrow> wm_state option" where
  "updateTransientInfo this s =
     do {
       s1 \<leftarrow> unlink_from_parent this s;
       let s2 = update_client this (\<lambda>C. C\<lparr>transient_for := None\<rparr>) s1;
       (case transient_hint s2 this of
          None \<Rightarrow> Some s2
        | Some win \<Rightarrow>
            if win = this then Some s2
            else if win \<noteq> 0 \<and> rootWindow s2 = win then Some s2
            else do {
              let s3 = update_client this (\<lambda>C. C\<lparr>transient_for := searchWindow s2 win\<rparr>) s2;
              let s4 = (if searchWindow s2 win = None
                        then wait_push_back win this (removeTransientFromWaitingList this s3)
                        else s3);
              s5 \<leftarrow> break_transient_loop this this s4;
              enter_parent_list this s5
            })
     }"

text \<open>
  A freshly constructed client (the initialiser list of the constructor). The three
  values read from the window by \<^verbatim>\<open>updateWMProtocols\<close> and \<^verbatim>\<open>updateWMHints\<close> are
  parameters.
\<close>

definition new_client :: "fid option \<Rightarrow> FocusMode \<Rightarrow> bool \<Rightarrow> bool \<Rightarrow> WinClient" where
  "new_client fbwin fm ai sfm =
     \<lparr> transient_for = None, transients = [], m_modal = False, m_modal_count = 0,
       m_win = fbwin, group_left = 0, focus_mode = fm, accepts_input = ai,
       send_focus_message = sfm \<rparr>"

text \<open>
  The \<^verbatim>\<open>for_each\<close> of lines 107--109 over the waiting list of \<open>win\<close>. A waiter whose
  update changes that very list would invalidate the iterator of the traversal, which is
  undefined; the model answers \<open>None\<close> there.
\<close>

fun update_waiters :: "handle \<Rightarrow> handle list \<Rightarrow> wm_state \<Rightarrow> wm_state option" where
  "update_waiters win [] s = Some s"
| "update_waiters win (x # xs) s =
     (case updateTransientInfo x s of None \<Rightarrow> None
      | Some s' \<Rightarrow>
          if s_transient_wait s' win = s_transient_wait s win then update_waiters win xs s'
          else None)"

text \<open>\<^verbatim>\<open>WinClient::WinClient\<close> for the window \<open>win\<close>.\<close>

definition WinClient_ctor :: "handle \<Rightarrow> WinClient \<Rightarrow> wm_state \<Rightarrow> wm_state option" where
  "WinClient_ctor win C0 s =
     do {
       let s1 = s\<lparr>clients := (clients s)(win \<mapsto> C0)\<rparr>;
       s2 \<leftarrow> (case s_transient_wait s1 win of
                None \<Rightarrow> Some s1
              | Some l \<Rightarrow>
                  do {
                    s' \<leftarrow> update_waiters win l s1;
                    Some (s'\<lparr>s_transient_wait := (s_transient_wait s')(win := None)\<rparr>)
                  });
       updateTransientInfo win s2
     }"

text \<open>\<^verbatim>\<open>WinClient::setStateModal\<close>.\<close>

definition setStateModal :: "handle \<Rightarrow> bool \<Rightarrow> wm_state \<Rightarrow> wm_state option" where
  "setStateModal this state s =
     (case clients s this of None \<Rightarrow> None
      | Some C \<Rightarrow>
          if state = m_modal C then Some s
          else
            (let s1 = update_client this (\<lambda>C. C\<lparr>m_modal := state\<rparr>) s
             in case transient_for C of
                  None \<Rightarrow> Some s1
                | Some p \<Rightarrow>
                    (case clients s1 p of None \<Rightarrow> None
                     | Some P \<Rightarrow> Some (update_client p (if state then addModal else removeModal) s1))))"

subsection \<open>Register and relink operations\<close>

text \<open>
  The two operations on the transient graph the environment triggers. \<open>Register win hint\<close>: a
  window \<open>win\<close> whose transient-for property is \<open>hint\<close> appears and its client is
  constructed. \<open>Relink c hint\<close>: the property of the client \<open>c\<close> changes to \<open>hint\<close> and
  \<^verbatim>\<open>updateTransientInfo\<close> runs for it.
\<close>

datatype operation = Register handle "handle option" | Relink handle "handle option"

fun apply_operation :: "operation \<Rightarrow> wm_state \<Rightarrow> wm_state option" where
  "apply_operation (Register win hint) s =
     WinClient_ctor win (new_client None F_PASSIVE True False)
       (s\<lparr>transient_hint := (transient_hint s)(win := hint)\<rparr>)"
| "apply_operation (Relink c hint) s =
     updateTransientInfo c (s\<lparr>transient_hint := (transient_hint s)(c := hint)\<rparr>)"

fun run :: "operation list \<Rightarrow> wm_state \<Rightarrow> wm_state option" where
  "run [] s = Some s"
| "run (x # xs) s = (case apply_operation x s of None \<Rightarrow> None | Some s' \<Rightarrow> run xs s')"

text \<open>
  Sequences the window manager can receive: a window is registered once, under a handle
  other than \<^verbatim>\<open>None\<close> and the root window, and only registered clients are relinked.
  \<open>R\<close> is the set of handles registered so far.
\<close>

fun valid_operations :: "handle \<Rightarrow> handle set \<Rightarrow> operation list \<Rightarrow> bool" where
  "valid_operations rw R [] = True"
| "valid_operations rw R (Register win hint # xs) =
     (win \<notin> R \<and> win \<noteq> 0 \<and> win \<noteq> rw \<and> valid_operations rw (insert win R) xs)"
| "valid_operations rw R (Relink c hint # xs) = (c \<in> R \<and> valid_operations rw R xs)"

text \<open>The state before any window exists.\<close>

definition initial_state :: "handle \<Rightarrow> wm_state" where
  "initial_state rw =
     \<lparr> clients = Map.empty, frames = Map.empty, s_transient_wait = Map.empty,
       transient_hint = (\<lambda>_. None), rootWindow = rw, x_gone = (\<lambda>_. False),
       shutting_down = False, screen_focused = None, focused_window = None, trace = [] \<rparr>"

text \<open>The transient relation: \<open>(c, p)\<close> when the client \<open>c\<close> is transient for \<open>p\<close>.\<close>

definition transient_rel :: "wm_state \<Rightarrow> (handle \<times> handle) set" where
  "transient_rel s = {(c, p). transientFor s c = Some p}"

text \<open>The graph of a partial function, and the list of transients of a client.\<close>

definition pf_rel :: "('a \<Rightarrow> 'a option) \<Rightarrow> ('a \<times> 'a) set" where
  "pf_rel f = {(a, b). f a = Some b}"

definition transientList :: "wm_state \<Rightarrow> handle \<Rightarrow> handle list" where
  "transientList s c = (case clients s c of None \<Rightarrow> [] | Some C \<Rightarrow> transients C)"

text \<open>
  What the hint of a client resolves to when \<^verbatim>\<open>updateTransientInfo\<close> reads it:
  \<open>link_target\<close> is the registered client it names, \<open>wait_target\<close> the unregistered
  window it names; both are \<open>None\<close> when the hint cannot be read or names the client
  itself or the root window.
\<close>

definition link_target :: "wm_state \<Rightarrow> handle \<Rightarrow> handle option" where
  "link_target s c =
     (case transient_hint s c of None \<Rightarrow> None
      | Some win \<Rightarrow> if win = c \<or> (win \<noteq> 0 \<and> rootWindow s = win) then None
                    else searchWindow s win)"

definition wait_target :: "wm_state \<Rightarrow> handle \<Rightarrow> handle option" where
  "wait_target s c =
     (case transient_hint s c of None \<Rightarrow> None
      | Some win \<Rightarrow> if win = c \<or> (win \<noteq> 0 \<and> rootWindow s = win) \<or> clients s win \<noteq> None
                    then None else Some win)"

text \<open>
  The invariant of the transient graph: finitely many clients, every parent is a
  registered client, the transient relation is acyclic, and every client on a waiting list
  is registered and waits for the window its hint names unless the hint resolves without
  the waiting lists.
\<close>

definition parents_registered :: "wm_state \<Rightarrow> bool" where
  "parents_registered s \<longleftrightarrow> (\<forall>c p. transientFor s c = Some p \<longrightarrow> p \<in> dom (clients s))"

definition graph_inv :: "wm_state \<Rightarrow> bool" where
  "graph_inv s \<longleftrightarrow>
     finite (dom (clients s)) \<and> parents_registered s \<and>
     acyclic (transient_rel s) \<and>
     (\<forall>k l x. s_transient_wait s k = Some l \<longrightarrow> x \<in> set l \<longrightarrow>
        x \<in> dom (clients s) \<and> (wait_target s x = None \<or> wait_target s x = Some k))"

text \<open>The last part of the invariant, with the client \<open>c\<close> exempted: its hint has
  changed and \<^verbatim>\<open>updateTransientInfo\<close> has not run for it yet.\<close>

definition waiters_ok :: "wm_state \<Rightarrow> handle \<Rightarrow> bool" where
  "waiters_ok s c \<longleftrightarrow>
     (\<forall>k l x. s_transient_wait s k = Some l \<longrightarrow> x \<in> set l \<longrightarrow>
        x \<in> dom (clients s) \<and> (x \<noteq> c \<longrightarrow> wait_target s x = None \<or> wait_target s x = Some k))"

text \<open>Two states that differ at most in their clients and waiting lists.\<close>

definition same_environment :: "wm_state \<Rightarrow> wm_state \<Rightarrow> bool" where
  "same_environment s s' \<longleftrightarrow>
     dom (clients s') = dom (clients s) \<and> frames s' = frames s \<and>
     transient_hint s' = transient_hint s \<and> rootWindow s' = rootWindow s \<and>
     x_gone s' = x_gone s \<and> screen_focused s' = screen_focused s \<and>
     focused_window s' = focused_window s \<and> trace s' = trace s"

section \<open>Tab groups and the focus delegation (Window.cc)\<close>

text \<open>
  A call through a pointer to a client or a frame that is not in the heap has no defined
  behaviour; every such call is \<open>None\<close> below, and so is a call that does not return.
  The title buttons of the tabs, the event manager, the window search table from windows
  to frames, the signals and the auto-raise timer are not part of the state: the calls
  that only concern them are left out of the functions of this section.
\<close>

text \<open>\<^verbatim>\<open>raise()\<close> of a client window, which is the X request that raises it.\<close>

definition client_raise :: "handle \<Rightarrow> wm_state \<Rightarrow> wm_state option" where
  "client_raise c s = (case clients s c of None \<Rightarrow> None | Some C \<Rightarrow> Some (emit (XRaiseWindow c) s))"

text \<open>\<^verbatim>\<open>WinClient::setGroupLeftWindow\<close>: the property is not written while the screen
  shuts down.\<close>

definition setGroupLeftWindow :: "handle \<Rightarrow> handle \<Rightarrow> wm_state \<Rightarrow> wm_state option" where
  "setGroupLeftWindow c win s =
     (case clients s c of None \<Rightarrow> None
      | Some C \<Rightarrow> if shutting_down s then Some s
                  else Some (update_client c (\<lambda>C. C\<lparr>group_left := win\<rparr>) s))"

text \<open>\<^verbatim>\<open>WinClient::sendFocus\<close>.\<close>

definition sendFocus :: "handle \<Rightarrow> wm_state \<Rightarrow> (bool \<times> wm_state) option" where
  "sendFocus c s =
     (case clients s c of None \<Rightarrow> None
      | Some C \<Rightarrow>
          if accepts_input C then Some (True, emit (XSetInputFocus c) s)
          else if \<not> send_focus_message C then Some (False, s)
          else Some (True, emit (TakeFocusMessage c) s))"

text \<open>
  The first part of \<^verbatim>\<open>FluxboxWindow::setInputFocus\<close>: a frame that lies off the screen
  to the left or to the right is moved back. The sums and differences with an
  \<^verbatim>\<open>unsigned\<close> operand are computed in \<^verbatim>\<open>unsigned int\<close> and converted to \<^verbatim>\<open>int\<close> by the
  cast or by the parameter of \<^verbatim>\<open>moveResize\<close>, which is called with the size the frame
  has and therefore only moves it.
\<close>

definition offscreen_position :: "FluxboxWindow \<Rightarrow> (int \<times> int) option" where
  "offscreen_position W =
     (let x = frame_x W; y = frame_y W; w = frame_width W; h = frame_height W;
          bw = border_width W; sw = screen_width W; sh = screen_height W in
      if s32 (u32 (x + w)) < 0 then
        (if s32 (u32 (y + h)) < 0 then Some (s32 bw, s32 bw)
         else if s32 sh < y then Some (s32 bw, s32 (u32 (sh - h)))
         else Some (s32 bw, s32 (u32 (y + bw))))
      else if s32 sw < x then
        (if s32 (u32 (y + h)) < 0 then Some (s32 (u32 (sw - w)), s32 bw)
         else if s32 sh < y then Some (s32 (u32 (sw - w)), s32 (u32 (sh - h)))
         else Some (s32 (u32 (sw - w)), s32 (u32 (y + bw))))
      else None)"

definition move_onscreen :: "FluxboxWindow \<Rightarrow> FluxboxWindow" where
  "move_onscreen W =
     (case offscreen_position W of None \<Rightarrow> W
      | Some (x, y) \<Rightarrow> W\<lparr>frame_x := x, frame_y := y\<rparr>)"

definition reposition :: "fid \<Rightarrow> wm_state \<Rightarrow> wm_state" where
  "reposition w s = update_frame w move_onscreen s"

text \<open>\<^verbatim>\<open>FluxboxWindow::validateClient\<close>, for the active client \<open>a\<close> of the frame.\<close>

definition validateClient :: "wm_state \<Rightarrow> handle \<Rightarrow> bool" where
  "validateClient s a = (\<not> x_gone s a)"

text \<open>
  The loop of \<^verbatim>\<open>setInputFocus\<close> over the transients of the active client: the first
  modal one, \<open>Some None\<close> when the loop ends without one.
\<close>

fun find_modal :: "wm_state \<Rightarrow> handle list \<Rightarrow> handle option option" where
  "find_modal s [] = Some None"
| "find_modal s (t # ts) =
     (case clients s t of None \<Rightarrow> None
      | Some T \<Rightarrow> if isModal T then Some (Some t) else find_modal s ts)"

text \<open>
  The branch of \<^verbatim>\<open>setInputFocus\<close> that focuses the active client \<open>a\<close> of the frame \<open>w\<close>
  itself. Modelled from the spec: \<^verbatim>\<open>setFocusedWindow\<close> of the screen and of
  \<^verbatim>\<open>Fluxbox\<close> record the focused client and the focused frame.
\<close>

definition focus_active :: "fid \<Rightarrow> handle \<Rightarrow> wm_state \<Rightarrow> (bool \<times> wm_state) option" where
  "focus_active w a s =
     (case clients s a of None \<Rightarrow> None
      | Some A \<Rightarrow>
          if focus_mode A = F_LOCALLYACTIVE \<or> focus_mode A = F_PASSIVE then
            do {
              let s1 = emit (XSetInputFocus a) s;
              let s2 = s1\<lparr>screen_focused := Some a\<rparr>;
              let s3 = s2\<lparr>focused_window := Some w\<rparr>;
              (r, s4) \<leftarrow> sendFocus a s3;
              Some (True, s4)
            }
          else Some (False, s))"

text \<open>
  \<^verbatim>\<open>FluxboxWindow::setInputFocus\<close>. For a modal active client with transients the call
  is handed to the frame of the first modal transient by \<^verbatim>\<open>setCurrentClient\<close>, which
  calls \<^verbatim>\<open>setInputFocus\<close> of that frame again; the body of \<^verbatim>\<open>setCurrentClient\<close> is
  written out at this place (its test \<^verbatim>\<open>client.m_win != this\<close> is false there, the frame
  being \<^verbatim>\<open>fbwindow()\<close> of the client). The chain of calls need not end.
\<close>

partial_function (option) setInputFocus :: "fid \<Rightarrow> wm_state \<Rightarrow> (bool \<times> wm_state) option" where
  "setInputFocus w s =
     (case frames s w of None \<Rightarrow> None
      | Some W \<Rightarrow>
       (case m_client W of None \<Rightarrow> None
        | Some a \<Rightarrow>
         (case clients s a of None \<Rightarrow> None
          | Some A \<Rightarrow>
             if \<not> validateClient s a then Some (False, reposition w s)
             else if transients A \<noteq> [] \<and> isModal A then
               (case find_modal s (transients A) of None \<Rightarrow> None
                | Some None \<Rightarrow> Some (False, reposition w s)
                | Some (Some t) \<Rightarrow>
                   (case clients s t of None \<Rightarrow> None
                    | Some T \<Rightarrow>
                     (case m_win T of None \<Rightarrow> None
                      | Some g \<Rightarrow>
                       (case frames s g of None \<Rightarrow> None
                        | Some G \<Rightarrow>
                           setInputFocus g
                             (emit (XRaiseWindow t)
                               (update_frame g (\<lambda>G. G\<lparr>m_client := Some t\<rparr>) (reposition w s)))))))
             else focus_active w a (reposition w s))))"


text \<open>
  The tab that \<^verbatim>\<open>nextClient\<close> and \<^verbatim>\<open>prevClient\<close> select: the one after, or before, the
  first occurrence of the active client, going round at the ends of the list.
\<close>

fun next_in_list :: "handle \<Rightarrow> handle list \<Rightarrow> handle option" where
  "next_in_list a [] = None"
| "next_in_list a (x # xs) =
     (if x = a then (case xs of [] \<Rightarrow> None | y # ys \<Rightarrow> Some y) else next_in_list a xs)"

fun prev_in_list :: "handle \<Rightarrow> handle list \<Rightarrow> handle option" where
  "prev_in_list a [] = None"
| "prev_in_list a [x] = None"
| "prev_in_list a (x # y # xs) = (if y = a then Some x else prev_in_list a (y # xs))"

text \<open>\<^verbatim>\<open>FluxboxWindow::nextClient\<close> and \<^verbatim>\<open>FluxboxWindow::prevClient\<close>.\<close>

definition nextClient :: "fid \<Rightarrow> wm_state \<Rightarrow> wm_state option" where
  "nextClient w s =
     (case frames s w of None \<Rightarrow> None
      | Some W \<Rightarrow>
          if length (m_clientlist W) \<le> 1 then Some s
          else if (case m_client W of None \<Rightarrow> True | Some a \<Rightarrow> a \<notin> set (m_clientlist W)) then
            Some (update_frame w (\<lambda>W. W\<lparr>m_client := Some (hd (m_clientlist W))\<rparr>) s)
          else
            do {
              let n = (case next_in_list (the (m_client W)) (m_clientlist W) of
                         None \<Rightarrow> hd (m_clientlist W) | Some y \<Rightarrow> y);
              let s1 = update_frame w (\<lambda>W. W\<lparr>m_client := Some n\<rparr>) s;
              s2 \<leftarrow> client_raise n s1;
              (r, s3) \<leftarrow> setInputFocus w s2;
              Some s3
            })"

definition prevClient :: "fid \<Rightarrow> wm_state \<Rightarrow> wm_state option" where
  "prevClient w s =
     (case frames s w of None \<Rightarrow> None
      | Some W \<Rightarrow>
          if length (m_clientlist W) \<le> 1 then Some s
          else if (case m_client W of None \<Rightarrow> True | Some a \<Rightarrow> a \<notin> set (m_clientlist W)) then
            Some (update_frame w (\<lambda>W. W\<lparr>m_client := Some (hd (m_clientlist W))\<rparr>) s)
          else
            do {
              let n = (if hd (m_clientlist W) = the (m_client W) then last (m_clientlist W)
                       else (case prev_in_list (the (m_client W)) (m_clientlist W) of
                               None \<Rightarrow> last (m_clientlist W) | Some y \<Rightarrow> y));
              let s1 = update_frame w (\<lambda>W. W\<lparr>m_client := Some n\<rparr>) s;
              s2 \<leftarrow> client_raise n s1;
              (r, s3) \<leftarrow> setInputFocus w s2;
              Some s3
            })"

text \<open>
  \<^verbatim>\<open>FluxboxWindow::removeClient\<close>. \<^verbatim>\<open>std::list::remove\<close> erases every occurrence of the
  client.
\<close>

definition removeClient :: "fid \<Rightarrow> handle \<Rightarrow> wm_state \<Rightarrow> (bool \<times> wm_state) option" where
  "removeClient w c s =
     (case frames s w of None \<Rightarrow> None
      | Some W \<Rightarrow>
       (case clients s c of None \<Rightarrow> None
        | Some C \<Rightarrow>
           if m_win C \<noteq> Some w \<or> length (m_clientlist W) = 0 then Some (False, s)
           else
             do {
               s1 \<leftarrow> (if m_client W = Some c
                      then (if c = last (m_clientlist W) then prevClient w s else nextClient w s)
                      else Some s);
               let s2 = update_client c (\<lambda>C. C\<lparr>m_win := None\<rparr>) s1;
               let s3 = update_frame w (\<lambda>W. W\<lparr>m_clientlist := removeAll c (m_clientlist W)\<rparr>) s2;
               let s4 = update_frame w
                          (\<lambda>W. if m_client W = Some c
                               then (if m_clientlist W = [] then W\<lparr>m_client := None\<rparr>
                                     else W\<lparr>m_client := Some (last (m_clientlist W))\<rparr>)
                               else W) s3;
               Some (True, s4)
             }))"




text \<open>
  The loop of \<^verbatim>\<open>attachClient\<close> over the tabs of the old frame of the client, which makes
  each of them a client of the frame \<open>w\<close>.
\<close>

fun adopt_clients :: "fid \<Rightarrow> handle list \<Rightarrow> wm_state \<Rightarrow> wm_state option" where
  "adopt_clients w [] s = Some s"
| "adopt_clients w (x # xs) s =
     (case clients s x of None \<Rightarrow> None
      | Some X \<Rightarrow> adopt_clients w xs (update_client x (\<lambda>X. X\<lparr>m_win := Some w\<rparr>) s))"

text \<open>
  \<^verbatim>\<open>FluxboxWindow::attachClient\<close>. The old frame of the client is deleted with an empty
  tab list and without an active client, so that its destructor deletes no client.
\<close>

definition attachClient :: "fid \<Rightarrow> handle \<Rightarrow> wm_state \<Rightarrow> wm_state option" where
  "attachClient w c s =
     (case frames s w of None \<Rightarrow> None
      | Some W \<Rightarrow>
       (case clients s c of None \<Rightarrow> None
        | Some C \<Rightarrow>
           if m_win C = Some w then Some s
           else
             do {
               let leftwin = (if m_clientlist W = [] then 0 else last (m_clientlist W));
               s1 \<leftarrow> setGroupLeftWindow c leftwin s;
               s4 \<leftarrow> (case m_win C of
                        Some old \<Rightarrow>
                          do {
                            Old \<leftarrow> frames s1 old;
                            s2 \<leftarrow> adopt_clients w (m_clientlist Old) s1;
                            let s3 = update_frame w
                                       (\<lambda>W. W\<lparr>m_clientlist := m_clientlist W @ m_clientlist Old\<rparr>) s2;
                            Some (s3\<lparr>frames := (frames s3)(old := None)\<rparr>)
                          }
                      | None \<Rightarrow>
                          do {
                            let s2 = update_client c (\<lambda>C. C\<lparr>m_win := Some w\<rparr>) s1;
                            Some (update_frame w (\<lambda>W. W\<lparr>m_clientlist := m_clientlist W @ [c]\<rparr>) s2)
                          });
               a \<leftarrow> m_client W;
               client_raise a s4
             }))"

text \<open>
  The loop of the destructor of a client over its transients, from the back of the list:
  each of them loses its parent.
\<close>

fun orphan_transients :: "handle list \<Rightarrow> wm_state \<Rightarrow> wm_state option" where
  "orphan_transients [] s = Some s"
| "orphan_transients (t # ts) s =
     (case clients s t of None \<Rightarrow> None
      | Some T \<Rightarrow> orphan_transients ts (update_client t (\<lambda>T. T\<lparr>transient_for := None\<rparr>) s))"

text \<open>
  \<^verbatim>\<open>WinClient::~WinClient\<close>. The assertion fails for a client that is its own parent.
  At the end the client is removed from the window search table and its storage is
  released.
\<close>

definition WinClient_dtor :: "handle \<Rightarrow> wm_state \<Rightarrow> wm_state option" where
  "WinClient_dtor this s =
     (case clients s this of None \<Rightarrow> None
      | Some C \<Rightarrow>
          do {
            s1 \<leftarrow> (case transient_for C of None \<Rightarrow> Some s
                   | Some p \<Rightarrow>
                      if p = this then None
                      else (case clients s p of None \<Rightarrow> None
                            | Some P \<Rightarrow>
                               Some (update_client this (\<lambda>C. C\<lparr>transient_for := None\<rparr>)
                                      (update_client p
                                         (\<lambda>P. (if m_modal C then removeModal else id)
                                                (P\<lparr>transients := removeAll this (transients P)\<rparr>)) s))));
            s2 \<leftarrow> orphan_transients (rev (transients C)) s1;
            let s3 = update_client this
                       (\<lambda>C. C\<lparr>transients := [], accepts_input := False, send_focus_message := False\<rparr>) s2;
            s4 \<leftarrow> (case m_win C of None \<Rightarrow> Some s3
                   | Some w \<Rightarrow> map_option snd (removeClient w this s3));
            let s5 = removeTransientFromWaitingList this s4;
            let s6 = s5\<lparr>s_transient_wait := (s_transient_wait s5)(this := None)\<rparr>;
            Some (s6\<lparr>clients := (clients s6)(this := None)\<rparr>)
          })"






section \<open>Example states\<close>

text \<open>A frame at the origin of a 1024 by 768 screen with the given tabs and active tab.\<close>

definition plain_frame :: "handle list \<Rightarrow> handle \<Rightarrow> FluxboxWindow" where
  "plain_frame l a =
     \<lparr> m_clientlist = l, m_client = Some a, iconic = False, oplock = False, m_layernum = 0,
       frame_x = 0, frame_y = 0, frame_width = 100, frame_height = 100, border_width = 1,
       screen_width = 1024, screen_height = 768 \<rparr>"

text \<open>A client of the passive input model in the frame \<open>w\<close>, and a modal one with the
  given parent and transients.\<close>

definition tab_client :: "fid \<Rightarrow> WinClient" where
  "tab_client w = new_client (Some w) F_PASSIVE True False"

definition modal_client :: "fid \<Rightarrow> handle option \<Rightarrow> handle list \<Rightarrow> WinClient" where
  "modal_client w p ts = (tab_client w)\<lparr>transient_for := p, transients := ts, m_modal := True\<rparr>"


text \<open>The same with a transient that is not modal.\<close>

definition modal_parent_scenario :: wm_state where
  "modal_parent_scenario =
     (initial_state 99)
       \<lparr> clients := [1 \<mapsto> modal_client 10 None [2],
                     2 \<mapsto> (tab_client 20)\<lparr>transient_for := Some 1\<rparr>],
         frames := [10 \<mapsto> plain_frame [1] 1, 20 \<mapsto> plain_frame [2] 2] \<rparr>"



section \<open>Size hints: results\<close>

subsection \<open>Truncating division\<close>

lemma s32_id: "- (2 ^ 31) \<le> x \<Longrightarrow> x < 2 ^ 31 \<Longrightarrow> s32 x = x"
  by (simp add: s32_def)

lemma sdiv_nonneg: "0 \<le> a \<Longrightarrow> 0 < n \<Longrightarrow> (a::int) sdiv n = a div n"
  by (cases "a = 0") (simp_all add: signed_divide_int_def)

lemma sdiv_neg: "a < 0 \<Longrightarrow> 0 < n \<Longrightarrow> (a::int) sdiv n = - ((- a) div n)"
  by (simp add: signed_divide_int_def)

lemma div_mult_le_int: "0 < n \<Longrightarrow> 0 \<le> a \<Longrightarrow> 0 \<le> (a::int) div n * n \<and> a div n * n \<le> a"
proof -
  assume n: "0 < n" and a: "0 \<le> a"
  have e: "a div n * n + a mod n = a" by simp
  have m: "0 \<le> a mod n" using n by simp
  have d: "0 \<le> a div n" using n a by (simp add: pos_imp_zdiv_nonneg_iff)
  have "0 \<le> a div n * n" using d n by (simp add: mult_nonneg_nonneg)
  moreover have "a div n * n \<le> a" using e m by linarith
  ultimately show ?thesis by simp
qed

lemma sdiv_mult_between:
  assumes "0 < n"
  shows "(0 \<le> a \<longrightarrow> 0 \<le> (a::int) sdiv n * n \<and> a sdiv n * n \<le> a) \<and>
     (a \<le> 0 \<longrightarrow> a \<le> a sdiv n * n \<and> a sdiv n * n \<le> 0)"
proof (cases "0 \<le> a")
  case True
  then show ?thesis using assms div_mult_le_int [of n a] by (auto simp: sdiv_nonneg)
next
  case False
  then have "a < 0" by simp
  then show ?thesis using assms div_mult_le_int [of n "- a"] by (simp add: sdiv_neg)
qed

lemma sdiv_mono:
  assumes "a \<le> b" "0 < n"
  shows "(a::int) sdiv n \<le> b sdiv n"
proof -
  consider "0 \<le> a" | "a < 0" "0 \<le> b" | "b < 0" using assms by linarith
  then show ?thesis
  proof cases
    case 1
    then show ?thesis using assms by (simp add: sdiv_nonneg zdiv_mono1)
  next
    case 2
    have "0 \<le> (- a) div n" using 2 assms by (simp add: pos_imp_zdiv_nonneg_iff)
    moreover have "0 \<le> b div n" using 2 assms by (simp add: pos_imp_zdiv_nonneg_iff)
    ultimately show ?thesis using 2 assms by (simp add: sdiv_nonneg sdiv_neg)
  next
    case 3
    then have "a < 0" using assms by simp
    moreover have "(- b) div n \<le> (- a) div n" using assms by (simp add: zdiv_mono1)
    ultimately show ?thesis using 3 assms by (simp add: sdiv_neg)
  qed
qed

lemma sdiv_mult_cancel: "0 < n \<Longrightarrow> ((k::int) * n) sdiv n = k"
  by (simp add: signed_divide_int_def abs_mult sgn_mult) (cases "k = 0", simp_all add: sgn_if)

lemma clampSize_range:
  assumes "0 \<le> mn" "mn < 2 ^ 31" "0 \<le> mx" "mx < 2 ^ 31" "x < 2 ^ 31"
  shows "0 \<le> clampSize mn mx x \<and> clampSize mn mx x < 2 ^ 31"
  using assms unfolding clampSize_def Let_def by (auto split: if_splits)

lemma clampSize_sandwich:
  assumes "0 \<le> mn" "0 \<le> mx" "0 \<le> b" "c = clampSize mn mx x" "(b \<le> g \<and> g \<le> c) \<or> (c \<le> g \<and> g \<le> b)"
  shows "min g c \<le> clampSize mn mx g \<and> clampSize mn mx g \<le> max g c"
  using assms unfolding clampSize_def Let_def by (auto split: if_splits)

lemma quantize_between:
  assumes "0 < n"
  shows "(b \<le> x \<and> b \<le> quantize b n x \<and> quantize b n x \<le> x) \<or>
         (x \<le> b \<and> x \<le> quantize b n x \<and> quantize b n x \<le> b)"
  using sdiv_mult_between [OF assms, of "x - b"] unfolding quantize_def by linarith

lemma quantize_cells:
  assumes "0 < (n::int)"
  shows "(quantize b n x - b) sdiv n = (x - b) sdiv n"
  using assms by (simp add: quantize_def sdiv_mult_cancel)

lemma cells_sandwich:
  assumes "0 < (n::int)" "min g c \<le> c'" "c' \<le> max g c" "(g - b) sdiv n = (c - b) sdiv n"
  shows "(c' - b) sdiv n = (c - b) sdiv n"
proof -
  have l: "min g c - b \<le> c' - b" and u: "c' - b \<le> max g c - b" using assms(2,3) by linarith+
  have "(min g c - b) sdiv n \<le> (c' - b) sdiv n" by (rule sdiv_mono [OF l assms(1)])
  moreover have "(c' - b) sdiv n \<le> (max g c - b) sdiv n" by (rule sdiv_mono [OF u assms(1)])
  moreover have "(min g c - b) sdiv n = (c - b) sdiv n" using assms by (simp add: min_def)
  moreover have "(max g c - b) sdiv n = (c - b) sdiv n" using assms by (simp add: max_def)
  ultimately show ?thesis by linarith
qed

lemma reclamp_cells:
  assumes "0 \<le> mn" "0 \<le> mx" "0 \<le> b" "0 < n"
  shows "(clampSize mn mx (quantize b n (clampSize mn mx x)) - b) sdiv n = (clampSize mn mx x - b) sdiv n"
proof -
  let ?c = "clampSize mn mx x" and ?g = "quantize b n (clampSize mn mx x)"
  have btw: "(b \<le> ?g \<and> ?g \<le> ?c) \<or> (?c \<le> ?g \<and> ?g \<le> b)"
    using quantize_between [OF assms(4), of b ?c] by linarith
  have sw: "min ?g ?c \<le> clampSize mn mx ?g \<and> clampSize mn mx ?g \<le> max ?g ?c"
    by (rule clampSize_sandwich [OF assms(1-3) refl btw])
  show ?thesis
    using cells_sandwich [OF assms(4) conjunct1 [OF sw] conjunct2 [OF sw] quantize_cells [OF assms(4)]] .
qed

lemma applyAspect_no_aspect: "no_aspect h \<Longrightarrow> applyAspect h m w ht = Some (w, ht)"
  by (auto simp: no_aspect_def applyAspect_def)

lemma quantize_s32:
  assumes "0 < n" "n < 2 ^ 31" "0 \<le> b" "b < 2 ^ 31" "0 \<le> c" "c < 2 ^ 31"
  shows "c_div (s32 (c - s32 b)) (s32 n) = Some ((c - b) sdiv n)"
    and "s32 (s32 ((c - b) sdiv n * s32 n) + s32 b) = quantize b n c"
    and "0 \<le> quantize b n c \<and> quantize b n c < 2 ^ 31"
proof -
  have n: "s32 n = n" and b: "s32 b = b" using assms by (simp_all add: s32_id)
  have d: "s32 (c - b) = c - b" using assms by (simp add: s32_id)
  show "c_div (s32 (c - s32 b)) (s32 n) = Some ((c - b) sdiv n)"
    using assms by (simp add: n b d c_div_def)
  have btw: "(0 \<le> c - b \<longrightarrow> 0 \<le> (c - b) sdiv n * n \<and> (c - b) sdiv n * n \<le> c - b) \<and>
     (c - b \<le> 0 \<longrightarrow> c - b \<le> (c - b) sdiv n * n \<and> (c - b) sdiv n * n \<le> 0)"
    by (rule sdiv_mult_between [OF assms(1)])
  have m: "s32 ((c - b) sdiv n * n) = (c - b) sdiv n * n"
    using btw assms by (intro s32_id) linarith+
  have q: "0 \<le> (c - b) sdiv n * n + b \<and> (c - b) sdiv n * n + b < 2 ^ 31"
    using btw assms by linarith
  show "s32 (s32 ((c - b) sdiv n * s32 n) + s32 b) = quantize b n c"
    using q by (simp add: n b m quantize_def s32_id)
  show "0 \<le> quantize b n c \<and> quantize b n c < 2 ^ 31"
    using q by (simp add: quantize_def)
qed

lemma applySizeHints_plain:
  assumes "sane_hints h" "no_aspect h" "w < 2 ^ 31" "ht < 2 ^ 31"
  shows "applySizeHints h w ht m =
     Some (quantize (base_width h) (width_inc h) (clampSize (min_width h) (max_width h) w),
           quantize (base_height h) (height_inc h) (clampSize (min_height h) (max_height h) ht),
           (clampSize (min_width h) (max_width h) w - base_width h) sdiv width_inc h,
           (clampSize (min_height h) (max_height h) ht - base_height h) sdiv height_inc h)"
proof -
  let ?cw = "clampSize (min_width h) (max_width h) w" and ?ch = "clampSize (min_height h) (max_height h) ht"
  have s: "s32 (min_width h) = min_width h" "s32 (max_width h) = max_width h"
    "s32 (min_height h) = min_height h" "s32 (max_height h) = max_height h"
    using assms(1) by (simp_all add: sane_hints_def s32_id)
  have cw: "0 \<le> ?cw \<and> ?cw < 2 ^ 31" using assms(1,3) by (intro clampSize_range) (simp_all add: sane_hints_def)
  have ch: "0 \<le> ?ch \<and> ?ch < 2 ^ 31" using assms(1,4) by (intro clampSize_range) (simp_all add: sane_hints_def)
  have hw: "0 < width_inc h" "width_inc h < 2 ^ 31" "0 \<le> base_width h" "base_width h < 2 ^ 31"
    and hh: "0 < height_inc h" "height_inc h < 2 ^ 31" "0 \<le> base_height h" "base_height h < 2 ^ 31"
    using assms(1) by (simp_all add: sane_hints_def)
  note qw = quantize_s32 [OF hw conjunct1 [OF cw] conjunct2 [OF cw]]
  note qh = quantize_s32 [OF hh conjunct1 [OF ch] conjunct2 [OF ch]]
  have "applySizeHints h w ht m = do {
        (width3, height3) \<leftarrow> applyAspect h m ?cw ?ch;
        i \<leftarrow> c_div (s32 (width3 - s32 (base_width h))) (s32 (width_inc h));
        let width4 = s32 (s32 (i * s32 (width_inc h)) + s32 (base_width h));
        j \<leftarrow> c_div (s32 (height3 - s32 (base_height h))) (s32 (height_inc h));
        let height4 = s32 (s32 (j * s32 (height_inc h)) + s32 (base_height h));
        Some (width4, height4, i, j)
      }"
    by (simp add: applySizeHints_def s clampSize_def Let_def)
  also have "\<dots> = Some (quantize (base_width h) (width_inc h) ?cw, quantize (base_height h) (height_inc h) ?ch,
           (?cw - base_width h) sdiv width_inc h, (?ch - base_height h) sdiv height_inc h)"
    by (simp add: applyAspect_no_aspect [OF assms(2)] qw(1,2) qh(1,2))
  finally show ?thesis .
qed


text \<open>
  Without an aspect constraint the two integer steps commute with a second application:
  for a hint set whose values fit an \<^verbatim>\<open>int\<close> and whose increments are positive,
  \<^verbatim>\<open>applySizeHints\<close> (not maximizing) returns, and applying it to the width and height it
  returned gives the same width, height and cell counts again. In the scenario of the
  specification (minimum 100x50, no maximum, increments 10x10, base 0x0) the size 107x54
  becomes 100x50 with 10x5 cells, and 100x50 is a fixed point.
\<close>

lemma applySizeHints_idempotent_no_aspect:
  assumes "sane_hints h" "no_aspect h" "- (2 ^ 31) \<le> w" "w < 2 ^ 31" "- (2 ^ 31) \<le> ht" "ht < 2 ^ 31"
  shows "(\<exists>w' h' i j. applySizeHints h w ht False = Some (w', h', i, j) \<and>
            applySizeHints h w' h' False = Some (w', h', i, j)) \<and>
         applySizeHints scenario_hints 107 54 False = Some (100, 50, 10, 5) \<and>
         applySizeHints scenario_hints 100 50 False = Some (100, 50, 10, 5)"
proof -
  let ?cw = "clampSize (min_width h) (max_width h) w" and ?ch = "clampSize (min_height h) (max_height h) ht"
  let ?gw = "quantize (base_width h) (width_inc h) ?cw" and ?gh = "quantize (base_height h) (height_inc h) ?ch"
  have cw: "0 \<le> ?cw \<and> ?cw < 2 ^ 31" using assms by (intro clampSize_range) (simp_all add: sane_hints_def)
  have ch: "0 \<le> ?ch \<and> ?ch < 2 ^ 31" using assms by (intro clampSize_range) (simp_all add: sane_hints_def)
  have hw: "0 \<le> min_width h" "0 \<le> max_width h" "0 \<le> base_width h" "0 < width_inc h" "width_inc h < 2 ^ 31" "base_width h < 2 ^ 31"
    and hh: "0 \<le> min_height h" "0 \<le> max_height h" "0 \<le> base_height h" "0 < height_inc h" "height_inc h < 2 ^ 31" "base_height h < 2 ^ 31"
    using assms(1) by (simp_all add: sane_hints_def)
  have gw: "?gw < 2 ^ 31" using quantize_s32(3) [OF hw(4,5,3,6) conjunct1 [OF cw] conjunct2 [OF cw]] by simp
  have gh: "?gh < 2 ^ 31" using quantize_s32(3) [OF hh(4,5,3,6) conjunct1 [OF ch] conjunct2 [OF ch]] by simp
  have first: "applySizeHints h w ht False = Some (?gw, ?gh, (?cw - base_width h) sdiv width_inc h, (?ch - base_height h) sdiv height_inc h)"
    by (rule applySizeHints_plain [OF assms(1,2,4,6)])
  have iw: "(clampSize (min_width h) (max_width h) ?gw - base_width h) sdiv width_inc h = (?cw - base_width h) sdiv width_inc h"
    by (rule reclamp_cells [OF hw(1-4)])
  have ih: "(clampSize (min_height h) (max_height h) ?gh - base_height h) sdiv height_inc h = (?ch - base_height h) sdiv height_inc h"
    by (rule reclamp_cells [OF hh(1-4)])
  have second: "applySizeHints h ?gw ?gh False = Some (?gw, ?gh, (?cw - base_width h) sdiv width_inc h, (?ch - base_height h) sdiv height_inc h)"
    unfolding applySizeHints_plain [OF assms(1,2) gw gh]
    using iw ih by (simp add: quantize_def)
  have scen: "applySizeHints scenario_hints 107 54 False = Some (100, 50, 10, 5)"
    "applySizeHints scenario_hints 100 50 False = Some (100, 50, 10, 5)"
    by code_simp+
  show ?thesis using first second scen by blast
qed

lemma applySizeHints_idempotent_scenario:
  "sane_hints scenario_hints \<and> no_aspect scenario_hints \<and>
   - (2 ^ 31) \<le> (107::int) \<and> (107::int) < 2 ^ 31 \<and> - (2 ^ 31) \<le> (54::int) \<and> (54::int) < 2 ^ 31 \<and>
   (\<exists>w' h' i j. applySizeHints scenario_hints 107 54 False = Some (w', h', i, j) \<and>
      applySizeHints scenario_hints w' h' False = Some (w', h', i, j))"
proof -
  have s: "sane_hints scenario_hints" and n: "no_aspect scenario_hints"
    by (simp_all add: sane_hints_def no_aspect_def scenario_hints_def)
  show ?thesis
    using s n applySizeHints_idempotent_no_aspect [OF s n, of 107 54] by simp
qed

text \<open>
  Claim C7. The function is documented to change width and height to the nearest lower
  value that conforms to the size hints, and a conforming size is a fixed point. For a
  window of fixed aspect ratio 2:1 and no other constraint it does not: the size 3x3 is
  mapped to 3x1, whose ratio 3 exceeds the maximum ratio 2, and 3x1 is mapped to 2x1. The
  two coordinates of the projection on the ratio line are truncated to integers
  separately, which leaves the ratio outside its bounds.
\<close>

theorem applySizeHints_aspect_not_idempotent:
  "applySizeHints aspect_hints 3 3 False = Some (3, 1, 3, 1) \<and>
   applySizeHints aspect_hints 3 1 False = Some (2, 1, 2, 1)"
  by code_simp

text \<open>
  Claim C8. A maximum of 0 means unbounded in \<^verbatim>\<open>updateWMNormalHints\<close> and in
  \<^verbatim>\<open>applySizeHints\<close>, but \<^verbatim>\<open>checkSizeHints\<close> compares with it as a bound: with
  the scenario's hints it rejects 100x50, the very size \<^verbatim>\<open>applySizeHints\<close> produces.
\<close>

theorem checkSizeHints_rejects_unbounded_maximum:
  "checkSizeHints scenario_hints 100 50 = Some False"
  by (simp add: checkSizeHints_def scenario_hints_def)

section \<open>The transient graph: results\<close>

lemma transient_rel_pf: "transient_rel s = pf_rel (transientFor s)"
  by (simp add: transient_rel_def pf_rel_def)

lemma single_valued_pf_rel: "single_valued (pf_rel f)"
  by (auto simp: single_valued_def pf_rel_def)

lemma rtrancl_confluent:
  assumes "single_valued r" "(a, b) \<in> r\<^sup>*" "(a, c) \<in> r\<^sup>*"
  shows "(b, c) \<in> r\<^sup>* \<or> (c, b) \<in> r\<^sup>*"
  using assms(2,3)
proof (induction rule: converse_rtrancl_induct)
  case base
  then show ?case by simp
next
  case (step x y)
  show ?case
  proof (cases "x = c")
    case True
    then show ?thesis using step.hyps by (meson converse_rtrancl_into_rtrancl)
  next
    case False
    then obtain z where "(x, z) \<in> r" "(z, c) \<in> r\<^sup>*"
      using step.prems by (meson converse_rtranclE)
    moreover have "z = y" using assms(1) step.hyps(1) calculation(1) by (auto dest: single_valuedD)
    ultimately show ?thesis using step.IH by simp
  qed
qed

lemma dead_end_rtrancl:
  assumes "(w, x) \<in> r\<^sup>*" "\<And>y. (w, y) \<notin> r"
  shows "x = w"
  using assms(1)
proof (cases rule: converse_rtranclE)
  case base
  then show ?thesis by simp
next
  case (step y)
  then show ?thesis using assms(2) by blast
qed

lemma acyclic_new_edge:
  assumes "acyclic G" "single_valued G" "(p, w) \<in> G\<^sup>*" "w \<noteq> this"
    "\<And>y. (w, y) \<notin> G" "\<And>y. (this, y) \<notin> G"
  shows "acyclic (insert (this, p) G)"
proof -
  have "(p, this) \<notin> G\<^sup>*"
  proof
    assume "(p, this) \<in> G\<^sup>*"
    then have "(w, this) \<in> G\<^sup>* \<or> (this, w) \<in> G\<^sup>*"
      using rtrancl_confluent [OF assms(2,3)] by blast
    then show False
      using dead_end_rtrancl [of w this G] dead_end_rtrancl [of this w G] assms(4,5,6) by blast
  qed
  then show ?thesis using assms(1) by (simp add: acyclic_insert)
qed

lemma clients_update_client:
  "clients (update_client c f s) = (case clients s c of None \<Rightarrow> clients s | Some C \<Rightarrow> (clients s)(c \<mapsto> f C))"
  by (simp add: update_client_def split: option.splits)

lemma dom_clients_update_client [simp]: "dom (clients (update_client c f s)) = dom (clients s)"
  by (auto simp: update_client_def split: option.splits)

lemma update_client_other [simp]:
  "frames (update_client c f s) = frames s"
  "s_transient_wait (update_client c f s) = s_transient_wait s"
  "transient_hint (update_client c f s) = transient_hint s"
  "rootWindow (update_client c f s) = rootWindow s"
  "x_gone (update_client c f s) = x_gone s"
  "screen_focused (update_client c f s) = screen_focused s"
  "focused_window (update_client c f s) = focused_window s"
  "trace (update_client c f s) = trace s"
  by (simp_all add: update_client_def split: option.splits)

lemma transientFor_update_client_set:
  "c \<in> dom (clients s) \<Longrightarrow>
   transientFor (update_client c (\<lambda>C. C\<lparr>transient_for := v\<rparr>) s) = (transientFor s)(c := v)"
  by (auto simp: transientFor_def update_client_def fun_eq_iff split: option.splits)

lemma transientFor_update_client_keep:
  "(\<And>C. transient_for (f C) = transient_for C) \<Longrightarrow>
   transientFor (update_client c f s) = transientFor s"
  by (auto simp: transientFor_def update_client_def fun_eq_iff split: option.splits)

lemma break_loop_general:
  assumes fin: "finite (dom (clients s))"
    and pr: "parents_registered s"
    and acyc: "acyclic (pf_rel ((transientFor s)(this := None)))"
    and tfp: "transientFor s this = Some p"
  shows "(p, w) \<in> {(a, b). (a, b) \<in> pf_rel ((transientFor s)(this := None)) \<and> b \<noteq> this}\<^sup>* \<Longrightarrow>
     w \<noteq> this \<Longrightarrow> w \<in> dom (clients s) \<Longrightarrow>
     \<exists>s'. break_transient_loop this w s = Some s' \<and>
       (s' = s \<or> (\<exists>x. x \<noteq> this \<and> x \<in> dom (clients s) \<and>
                    (w, x) \<in> {(a, b). (a, b) \<in> pf_rel ((transientFor s)(this := None)) \<and> b \<noteq> this}\<^sup>* \<and>
                    transientFor s x = Some this \<and>
                    s' = update_client x (\<lambda>W. W\<lparr>transient_for := None\<rparr>) s)) \<and>
       acyclic (transient_rel s')"
proof -
  have closed: "\<And>c q. transientFor s c = Some q \<Longrightarrow> q \<in> dom (clients s)"
    using pr by (simp add: parents_registered_def)
  let ?G = "pf_rel ((transientFor s)(this := None))"
  let ?H = "{(a, b). (a, b) \<in> ?G \<and> b \<noteq> this}"
  have "a \<in> dom (clients s) \<and> b \<in> dom (clients s)" if "transientFor s a = Some b" for a b
    using closed [OF that] that by (auto simp: transientFor_def split: option.splits)
  then have "?G \<subseteq> dom (clients s) \<times> dom (clients s)"
    by (fastforce simp: pf_rel_def split: if_splits)
  then have "finite ?G" using fin by (meson finite_SigmaI finite_subset)
  then have wf: "wf (?G\<inverse>)" using acyc by (rule finite_acyclic_wf_converse)
  have sv: "single_valued ?G" by (rule single_valued_pf_rel)
  have this_dead: "\<And>y. (this, y) \<notin> ?G" by (simp add: pf_rel_def)
  have rel_s: "transient_rel s = insert (this, p) ?G"
    using tfp by (auto simp: transient_rel_def pf_rel_def split: if_splits)
  show "(p, w) \<in> ?H\<^sup>* \<Longrightarrow> w \<noteq> this \<Longrightarrow> w \<in> dom (clients s) \<Longrightarrow>
     \<exists>s'. break_transient_loop this w s = Some s' \<and>
       (s' = s \<or> (\<exists>x. x \<noteq> this \<and> x \<in> dom (clients s) \<and>
                    (w, x) \<in> {(a, b). (a, b) \<in> pf_rel ((transientFor s)(this := None)) \<and> b \<noteq> this}\<^sup>* \<and>
                    transientFor s x = Some this \<and>
                    s' = update_client x (\<lambda>W. W\<lparr>transient_for := None\<rparr>) s)) \<and>
       acyclic (transient_rel s')"
    using wf
  proof (induction w rule: wf_induct_rule)
    case (less w)
    obtain W where W: "clients s w = Some W" using less.prems(3) by auto
    have HG: "?H \<subseteq> ?G" by blast
    have pw: "(p, w) \<in> ?G\<^sup>*"
      using less.prems(1) rtrancl_mono [OF HG] by blast
    show ?case
    proof (cases "transient_for W")
      case None
      have dead: "\<And>y. (w, y) \<notin> ?G" using W None by (simp add: pf_rel_def transientFor_def)
      have "acyclic (transient_rel s)"
        unfolding rel_s by (rule acyclic_new_edge [OF acyc sv pw less.prems(2) dead this_dead])
      moreover have "break_transient_loop this w s = Some s"
        using W None by (subst break_transient_loop.simps) simp
      ultimately show ?thesis by simp
    next
      case (Some q)
      show ?thesis
      proof (cases "q = this")
        case True
        let ?s' = "update_client w (\<lambda>W. W\<lparr>transient_for := None\<rparr>) s"
        let ?G' = "pf_rel ((transientFor s)(this := None, w := None))"
        have loop: "break_transient_loop this w s = Some ?s'"
          using W Some True by (subst break_transient_loop.simps) simp
        have tf': "transientFor ?s' = (transientFor s)(w := None)"
          using less.prems(3) by (rule transientFor_update_client_set)
        have rel': "transient_rel ?s' = insert (this, p) ?G'"
          using tfp less.prems(2) by (auto simp: transient_rel_def tf' pf_rel_def split: if_splits)
        have "?G' \<subseteq> ?G" by (auto simp: pf_rel_def split: if_splits)
        then have acyc': "acyclic ?G'" using acyc by (rule acyclic_subset [rotated])
        have "?H \<subseteq> ?G'"
          using W Some True by (auto simp: pf_rel_def transientFor_def split: if_splits)
        then have pw': "(p, w) \<in> ?G'\<^sup>*" using less.prems(1) rtrancl_mono by blast
        have "acyclic (transient_rel ?s')"
          unfolding rel'
          by (rule acyclic_new_edge [OF acyc' single_valued_pf_rel pw' less.prems(2)])
             (simp_all add: pf_rel_def)
        moreover have "transientFor s w = Some this"
          using W Some True by (simp add: transientFor_def)
        ultimately show ?thesis using loop less.prems(2,3) by blast
      next
        case False
        have wq: "(w, q) \<in> ?H"
          using W Some False less.prems(2) by (simp add: pf_rel_def transientFor_def)
        have q_dom: "q \<in> dom (clients s)"
          using closed [of w q] W Some by (simp add: transientFor_def)
        have pq: "(p, q) \<in> ?H\<^sup>*" using less.prems(1) wq by (rule rtrancl_into_rtrancl)
        have qw: "(q, w) \<in> ?G\<inverse>" using wq by simp
        have wqG: "(w, q) \<in> ?G" using wq by simp
        from less.IH [OF qw pq False q_dom]
        obtain s' where s': "break_transient_loop this q s = Some s'"
          "s' = s \<or> (\<exists>x. x \<noteq> this \<and> x \<in> dom (clients s) \<and> (q, x) \<in> ?H\<^sup>* \<and>
              transientFor s x = Some this \<and>
              s' = update_client x (\<lambda>W. W\<lparr>transient_for := None\<rparr>) s)"
          "acyclic (transient_rel s')"
          by blast
        have "break_transient_loop this w s = Some s'"
          using W Some False s'(1) by (subst break_transient_loop.simps) simp
        moreover have "s' = s \<or> (\<exists>x. x \<noteq> this \<and> x \<in> dom (clients s) \<and> (w, x) \<in> ?H\<^sup>* \<and>
              transientFor s x = Some this \<and>
              s' = update_client x (\<lambda>W. W\<lparr>transient_for := None\<rparr>) s)"
        proof -
          have "(w, x) \<in> ?H\<^sup>*" if "(q, x) \<in> ?H\<^sup>*" for x
            using wq that by (rule converse_rtrancl_into_rtrancl)
          then show ?thesis using s'(2) by blast
        qed
        ultimately show ?thesis using s'(3) by blast
      qed
    qed
  qed
qed

lemma transientList_update_client:
  "transientList (update_client c f s) y =
     (if y = c then (case clients s c of None \<Rightarrow> [] | Some C \<Rightarrow> transients (f C)) else transientList s y)"
  by (auto simp: transientList_def update_client_def split: option.splits)

lemma transientList_update_client_keep:
  "(\<And>C. transients (f C) = transients C) \<Longrightarrow>
   transientList (update_client c f s) = transientList s"
  by (auto simp: transientList_def update_client_def fun_eq_iff split: option.splits)

lemma searchWindow_dom: "searchWindow s w = (if w \<in> dom (clients s) then Some w else None)"
  by (auto simp: searchWindow_def split: option.splits)

lemma same_environment_refl [simp]: "same_environment s s"
  by (simp add: same_environment_def)

lemma same_environment_trans: "same_environment s s' \<Longrightarrow> same_environment s' s'' \<Longrightarrow> same_environment s s''"
  by (simp add: same_environment_def)

lemma same_environment_update_client [simp]: "same_environment s (update_client c f s)"
  by (simp add: same_environment_def)

lemma same_environment_step:
  "same_environment s t \<Longrightarrow> same_environment s (update_client c f t)"
  "same_environment s t \<Longrightarrow> same_environment s (removeTransientFromWaitingList c t)"
  "same_environment s t \<Longrightarrow> same_environment s (wait_push_back w c t)"
  by (simp_all add: same_environment_def removeTransientFromWaitingList_def wait_push_back_def)

lemma unlink_effect:
  assumes pr: "parents_registered s"
    and c: "c \<in> dom (clients s)"
  shows "\<exists>s1. unlink_from_parent c s = Some s1 \<and> same_environment s s1 \<and>
           s_transient_wait s1 = s_transient_wait s \<and>
           transientFor s1 = (transientFor s)(c := None) \<and>
           (\<forall>y. transientList s1 y =
                 (if transientFor s c = Some y then removeAll c (transientList s y) else transientList s y))"
proof -
  have closed: "\<And>c q. transientFor s c = Some q \<Longrightarrow> q \<in> dom (clients s)"
    using pr by (simp add: parents_registered_def)
  obtain C where C: "clients s c = Some C" using c by auto
  show ?thesis
  proof (cases "transient_for C")
    case None
    then have "unlink_from_parent c s = Some s" using C by (simp add: unlink_from_parent_def)
    moreover have "transientFor s = (transientFor s)(c := None)"
      using C None by (auto simp: transientFor_def fun_eq_iff)
    moreover have "transientFor s c = None" using C None by (simp add: transientFor_def)
    ultimately show ?thesis by simp
  next
    case (Some p)
    have tfc: "transientFor s c = Some p" using C Some by (simp add: transientFor_def)
    obtain P where P: "clients s p = Some P" using closed [OF tfc] by auto
    let ?g = "\<lambda>P. (if m_modal C then removeModal else id) (P\<lparr>transients := removeAll c (transients P)\<rparr>)"
    let ?s0 = "update_client p ?g s"
    let ?s1 = "update_client c (\<lambda>C. C\<lparr>transient_for := None\<rparr>) ?s0"
    have r: "unlink_from_parent c s = Some ?s1"
      using C Some P by (simp add: unlink_from_parent_def)
    have tf0: "transientFor ?s0 = transientFor s"
      by (rule transientFor_update_client_keep) (simp add: removeModal_def)
    have tf1: "transientFor ?s1 = (transientFor s)(c := None)"
      using c by (simp add: transientFor_update_client_set tf0)
    have tl: "transientList ?s1 y =
        (if transientFor s c = Some y then removeAll c (transientList s y) else transientList s y)" for y
      using C P by (auto simp: transientList_update_client tfc clients_update_client removeModal_def
          transientList_def split: option.splits)
    have "same_environment s ?s1"
      by (intro same_environment_step same_environment_refl)
    then show ?thesis using r tf1 tl by simp
  qed
qed

lemma wait_fields [simp]:
  "clients (removeTransientFromWaitingList c s) = clients s"
  "clients (wait_push_back w c s) = clients s"
  "transientFor (removeTransientFromWaitingList c s) = transientFor s"
  "transientFor (wait_push_back w c s) = transientFor s"
  "transientList (removeTransientFromWaitingList c s) = transientList s"
  "transientList (wait_push_back w c s) = transientList s"
  "same_environment s (removeTransientFromWaitingList c s)"
  "same_environment s (wait_push_back w c s)"
  by (simp_all add: removeTransientFromWaitingList_def wait_push_back_def transientFor_def
      transientList_def same_environment_def fun_eq_iff)

lemma wait_change_cong:
  "s_transient_wait t = s_transient_wait s \<Longrightarrow>
   s_transient_wait (wait_push_back w c (removeTransientFromWaitingList c t)) =
   s_transient_wait (wait_push_back w c (removeTransientFromWaitingList c s))"
  by (simp add: removeTransientFromWaitingList_def wait_push_back_def)

lemma transient_rel_subset_acyclic:
  "acyclic (transient_rel s) \<Longrightarrow> acyclic (pf_rel ((transientFor s)(c := None)))"
  by (rule acyclic_subset) (auto simp: transient_rel_def pf_rel_def split: if_splits)

lemma hint_cases [case_names quiet link wait]:
  obtains (quiet) "link_target s c = None" "wait_target s c = None"
       "transient_hint s c = None \<or>
         (\<exists>w. transient_hint s c = Some w \<and> (w = c \<or> (w \<noteq> 0 \<and> rootWindow s = w)))"
    | (link) p where "link_target s c = Some p" "wait_target s c = None"
          "transient_hint s c = Some p" "p \<noteq> c" "\<not> (p \<noteq> 0 \<and> rootWindow s = p)" "p \<in> dom (clients s)"
    | (wait) w where "link_target s c = None" "wait_target s c = Some w"
          "transient_hint s c = Some w" "w \<noteq> c" "\<not> (w \<noteq> 0 \<and> rootWindow s = w)" "w \<notin> dom (clients s)"
proof (cases "transient_hint s c")
  case None
  then show ?thesis using quiet by (simp add: link_target_def wait_target_def)
next
  case (Some w)
  show ?thesis
  proof (cases "w = c \<or> (w \<noteq> 0 \<and> rootWindow s = w)")
    case True
    then show ?thesis using Some quiet by (auto simp: link_target_def wait_target_def)
  next
    case False
    show ?thesis
    proof (cases "clients s w")
      case None
      then show ?thesis using wait [of w] Some False
        by (auto simp: link_target_def wait_target_def searchWindow_def domIff)
    next
      case (Some W)
      then show ?thesis using link [of w] \<open>transient_hint s c = Some w\<close> False
        by (auto simp: link_target_def wait_target_def searchWindow_def domIff)
    qed
  qed
qed

lemma updateTransientInfo_effect:
  assumes fin: "finite (dom (clients s))"
    and pr: "parents_registered s"
    and acyc: "acyclic (transient_rel s)"
    and c: "c \<in> dom (clients s)"
  shows "\<exists>s'. updateTransientInfo c s = Some s' \<and> same_environment s s' \<and>
     s_transient_wait s' = (case wait_target s c of None \<Rightarrow> s_transient_wait s
        | Some w \<Rightarrow> s_transient_wait (wait_push_back w c (removeTransientFromWaitingList c s))) \<and>
     transientFor s' c = link_target s c \<and>
     (\<forall>y. y \<noteq> c \<longrightarrow> transientFor s' y = transientFor s y \<or>
        (transientFor s' y = None \<and> transientFor s y = Some c \<and>
         (\<exists>p. link_target s c = Some p \<and> (p, y) \<in> (transient_rel s)\<^sup>*) \<and>
         (c, y) \<in> (transient_rel s')\<^sup>+)) \<and>
     (\<forall>y. transientList s' y =
        (if transientFor s c = Some y then removeAll c (transientList s y) else transientList s y) @
        (if link_target s c = Some y then [c] else [])) \<and>
     acyclic (transient_rel s')"
proof -
  obtain s1 where s1: "unlink_from_parent c s = Some s1" "same_environment s s1"
      "s_transient_wait s1 = s_transient_wait s" "transientFor s1 = (transientFor s)(c := None)"
      "\<And>y. transientList s1 y =
         (if transientFor s c = Some y then removeAll c (transientList s y) else transientList s y)"
    using unlink_effect [OF pr c] by blast
  have closed: "\<And>c q. transientFor s c = Some q \<Longrightarrow> q \<in> dom (clients s)"
    using pr by (simp add: parents_registered_def)
  let ?s2 = "update_client c (\<lambda>C. C\<lparr>transient_for := None\<rparr>) s1"
  have dom1: "dom (clients s1) = dom (clients s)" using s1(2) by (simp add: same_environment_def)
  have c1: "c \<in> dom (clients s1)" using c dom1 by simp
  have env2: "same_environment s ?s2"
    using s1(2) by (rule same_environment_step)
  have hint2: "transient_hint ?s2 = transient_hint s" "rootWindow ?s2 = rootWindow s"
    "dom (clients ?s2) = dom (clients s)"
    using env2 by (simp_all add: same_environment_def)
  have hint1: "transient_hint s1 = transient_hint s" "rootWindow s1 = rootWindow s"
    using s1(2) by (simp_all add: same_environment_def)
  have tf2: "transientFor ?s2 = (transientFor s)(c := None)"
    using c1 by (simp add: transientFor_update_client_set s1(4))
  have tl2: "transientList ?s2 y = transientList s1 y" for y
    by (simp add: transientList_update_client_keep)
  have wait2: "s_transient_wait ?s2 = s_transient_wait s" using s1(3) by simp
  have acyc2: "acyclic (transient_rel ?s2)"
    using transient_rel_subset_acyclic [OF acyc, of c] by (simp add: transient_rel_def tf2 pf_rel_def)
  have sw: "searchWindow ?s2 w = (if w \<in> dom (clients s) then Some w else None)" for w
    unfolding searchWindow_dom hint2(3) by simp
  show ?thesis
  proof (cases rule: hint_cases [of s c])
    case quiet
    then have r: "updateTransientInfo c s = Some ?s2"
      using s1(1) by (auto simp: updateTransientInfo_def hint1 Let_def)
    show ?thesis
      using r env2 wait2 acyc2 quiet by (auto simp: tf2 tl2 s1(5))
  next
    case (wait w)
    define s3 where "s3 = update_client c (\<lambda>C. C\<lparr>transient_for := None\<rparr>) ?s2"
    define s4 where "s4 = wait_push_back w c (removeTransientFromWaitingList c s3)"
    have sw_w: "searchWindow ?s2 w = None" using wait(6) by (simp add: sw)
    have c3: "c \<in> dom (clients s3)" using c hint2(3) by (simp add: s3_def)
    have tf3: "transientFor s3 = (transientFor s)(c := None)"
      unfolding s3_def using c hint2(3) by (simp add: transientFor_update_client_set tf2)
    have tf4: "transientFor s4 = (transientFor s)(c := None)"
      unfolding s4_def by (simp add: tf3)
    have tfc4: "transientFor s4 c = None" unfolding tf4 by simp
    have "c \<in> dom (clients s4)" using c3 by (simp add: s4_def)
    then obtain C4 where C4: "clients s4 c = Some C4" "transient_for C4 = None"
      using tfc4 by (auto simp: transientFor_def split: option.splits)
    have loop: "break_transient_loop c c s4 = Some s4"
      using C4 by (subst break_transient_loop.simps) simp
    have enter: "enter_parent_list c s4 = Some s4"
      using C4 by (simp add: enter_parent_list_def)
    have nr: "(0 < w \<and> rootWindow s = w) = False" using wait(5) by auto
    have r: "updateTransientInfo c s = Some s4"
      using s1(1) wait(3,4) sw_w loop enter
      by (simp add: updateTransientInfo_def hint1 Let_def s4_def s3_def nr)
    have env4: "same_environment s s4"
      unfolding s4_def s3_def by (intro same_environment_step env2)
    have wait4: "s_transient_wait s4 = s_transient_wait (wait_push_back w c (removeTransientFromWaitingList c s))"
      unfolding s4_def by (rule wait_change_cong) (simp add: s1(3) s3_def)
    have tl4: "transientList s4 y = transientList s1 y" for y
      unfolding s4_def s3_def by (simp add: transientList_update_client_keep)
    have acyc4: "acyclic (transient_rel s4)"
      using acyc2 by (simp add: transient_rel_def tf4 tf2)
    show ?thesis
      using r env4 wait4 acyc4 wait(1,2) by (auto simp: tf4 tl4 s1(5))
  next
    case (link p)
    define s3 where "s3 = update_client c (\<lambda>C. C\<lparr>transient_for := Some p\<rparr>) ?s2"
    have sw_p: "searchWindow ?s2 p = Some p" using link(6) by (simp add: sw)
    have c3: "c \<in> dom (clients s3)" and dom3: "dom (clients s3) = dom (clients s)"
      using c hint2(3) by (simp_all add: s3_def)
    have tf3: "transientFor s3 = (transientFor s)(c := Some p)"
      unfolding s3_def using c hint2(3) by (simp add: transientFor_update_client_set tf2)
    have env3: "same_environment s s3"
      unfolding s3_def by (intro same_environment_step env2)
    have wait3: "s_transient_wait s3 = s_transient_wait s" by (simp add: s3_def s1(3))
    have tl3: "transientList s3 y = transientList s1 y" for y
      unfolding s3_def by (simp add: transientList_update_client_keep)
    obtain C3 where C3: "clients s3 c = Some C3" "transient_for C3 = Some p"
      using c3 tf3 by (auto simp: transientFor_def split: option.splits dest!: fun_cong [where x = c])
    have G3: "(transientFor s3)(c := None) = (transientFor s)(c := None)" by (simp add: tf3)
    have closed3: "parents_registered s3"
      unfolding parents_registered_def using closed link(6) by (auto simp: tf3 dom3 split: if_splits)
    have fin3: "finite (dom (clients s3))" using fin by (simp add: dom3)
    have acycG: "acyclic (pf_rel ((transientFor s3)(c := None)))"
      unfolding G3 by (rule transient_rel_subset_acyclic [OF acyc])
    have tfc3: "transientFor s3 c = Some p" by (simp add: tf3)
    have p3: "p \<in> dom (clients s3)" using link(6) dom3 by simp
    from break_loop_general [OF fin3 closed3 acycG tfc3 rtrancl.rtrancl_refl link(4) p3]
    obtain s5 where s5: "break_transient_loop c p s3 = Some s5"
      "s5 = s3 \<or> (\<exists>x. x \<noteq> c \<and> x \<in> dom (clients s3) \<and>
          (p, x) \<in> {(a, b). (a, b) \<in> pf_rel ((transientFor s3)(c := None)) \<and> b \<noteq> c}\<^sup>* \<and> transientFor s3 x = Some c \<and>
          s5 = update_client x (\<lambda>W. W\<lparr>transient_for := None\<rparr>) s3)"
      "acyclic (transient_rel s5)"
      by blast
    have loop: "break_transient_loop c c s3 = Some s5"
      using C3 link(4) s5(1) by (subst break_transient_loop.simps) simp
    have env5: "same_environment s s5"
      using s5(2) env3 by (auto intro: same_environment_step)
    have wait5: "s_transient_wait s5 = s_transient_wait s"
      using s5(2) wait3 by auto
    have tl5: "transientList s5 y = transientList s1 y" for y
      using s5(2) tl3 by (auto simp: transientList_update_client_keep)
    have sub: "{(a, b). (a, b) \<in> pf_rel ((transientFor s3)(c := None)) \<and> b \<noteq> c}\<^sup>* \<subseteq> (transient_rel s)\<^sup>*"
      unfolding G3 by (rule rtrancl_mono) (auto simp: pf_rel_def transient_rel_def split: if_splits)
    have tf5: "transientFor s5 c = Some p \<and>
        (\<forall>y. y \<noteq> c \<longrightarrow> transientFor s5 y = transientFor s y \<or>
           (transientFor s5 y = None \<and> transientFor s y = Some c \<and> (p, y) \<in> (transient_rel s)\<^sup>* \<and>
            (c, y) \<in> (transient_rel s5)\<^sup>+))"
      using s5(2)
    proof
      assume "s5 = s3"
      then show ?thesis by (simp add: tf3)
    next
      assume "\<exists>x. x \<noteq> c \<and> x \<in> dom (clients s3) \<and>
          (p, x) \<in> {(a, b). (a, b) \<in> pf_rel ((transientFor s3)(c := None)) \<and> b \<noteq> c}\<^sup>* \<and> transientFor s3 x = Some c \<and>
          s5 = update_client x (\<lambda>W. W\<lparr>transient_for := None\<rparr>) s3"
      then obtain x where x: "x \<noteq> c" "x \<in> dom (clients s3)"
          "(p, x) \<in> {(a, b). (a, b) \<in> pf_rel ((transientFor s3)(c := None)) \<and> b \<noteq> c}\<^sup>*" "transientFor s3 x = Some c"
          "s5 = update_client x (\<lambda>W. W\<lparr>transient_for := None\<rparr>) s3"
        by blast
      have tf5x: "transientFor s5 = (transientFor s)(c := Some p, x := None)"
        unfolding x(5) using x(2) by (simp add: transientFor_update_client_set tf3)
      have tfx: "transientFor s x = Some c" using x(1,4) by (simp add: tf3)
      have px: "(p, x) \<in> (transient_rel s)\<^sup>*" using x(3) sub by blast
      have "{(a, b). (a, b) \<in> pf_rel ((transientFor s3)(c := None)) \<and> b \<noteq> c} \<subseteq> transient_rel s5"
        using tfx by (auto simp: pf_rel_def transient_rel_def tf5x tf3 split: if_splits)
      then have "(p, x) \<in> (transient_rel s5)\<^sup>*" using x(3) rtrancl_mono by blast
      moreover have "(c, p) \<in> transient_rel s5" using x(1) by (simp add: transient_rel_def tf5x)
      ultimately have cx: "(c, x) \<in> (transient_rel s5)\<^sup>+" by (rule rtrancl_into_trancl2 [rotated])
      show ?thesis using x(1) tfx px cx by (auto simp: tf5x)
    qed
    obtain C5 where C5: "clients s5 c = Some C5" "transient_for C5 = Some p"
      using tf5 by (auto simp: transientFor_def split: option.splits)
    have dom5: "dom (clients s5) = dom (clients s)" using env5 by (simp add: same_environment_def)
    obtain P5 where P5: "clients s5 p = Some P5" using link(6) dom5 by auto
    let ?g = "\<lambda>P. (if m_modal C5 then addModal else id) (P\<lparr>transients := transients P @ [c]\<rparr>)"
    define s6 where "s6 = update_client p ?g s5"
    have enter: "enter_parent_list c s5 = Some s6"
      using C5 P5 by (simp add: enter_parent_list_def s6_def)
    have nr: "(0 < p \<and> rootWindow s = p) = False" using link(5) by auto
    have r: "updateTransientInfo c s = Some s6"
      using s1(1) link(3,4) sw_p loop enter by (simp add: updateTransientInfo_def hint1 Let_def s3_def nr)
    have tf6: "transientFor s6 = transientFor s5"
      unfolding s6_def by (rule transientFor_update_client_keep) (simp add: addModal_def)
    have rel6: "transient_rel s6 = transient_rel s5" by (simp add: transient_rel_def tf6)
    have env6: "same_environment s s6"
      unfolding s6_def using env5 by (rule same_environment_step)
    have tl6: "transientList s6 y = transientList s1 y @ (if y = p then [c] else [])" for y
    proof -
      have "transientList s6 y = (if y = p then transients (?g P5) else transientList s5 y)"
        using P5 by (simp add: transientList_update_client s6_def)
      moreover have "transients (?g P5) = transientList s5 p @ [c]"
        using P5 by (simp add: addModal_def transientList_def)
      ultimately show ?thesis using tl5 by simp
    qed
    have acyc6: "acyclic (transient_rel s6)"
      using s5(3) by (simp add: rel6)
    have wait6: "s_transient_wait s6 = s_transient_wait s" using wait5 by (simp add: s6_def)
    show ?thesis
      using r env6 wait6 acyc6 link(1,2) tf5 by (auto simp: tf6 tl6 s1(5) rel6)
  qed
qed

lemma wait_target_same_environment:
  "same_environment s s' \<Longrightarrow> wait_target s' = wait_target s"
proof -
  assume e: "same_environment s s'"
  have "dom (clients s') = dom (clients s)" using e by (simp add: same_environment_def)
  then have "(clients s' w = None) = (clients s w = None)" for w
    by (metis domIff)
  moreover have "transient_hint s' = transient_hint s" "rootWindow s' = rootWindow s"
    using e by (simp_all add: same_environment_def)
  ultimately show ?thesis by (simp add: wait_target_def fun_eq_iff split: option.splits)
qed

lemma link_target_registered: "link_target s c = Some p \<Longrightarrow> p \<in> dom (clients s)"
  by (auto simp: link_target_def searchWindow_dom split: option.splits if_splits)

lemma graph_inv_waiters_ok: "graph_inv s \<Longrightarrow> waiters_ok s c"
  by (simp add: graph_inv_def waiters_ok_def)

lemma updateTransientInfo_inv:
  assumes fin: "finite (dom (clients s))" and pr: "parents_registered s"
    and acyc: "acyclic (transient_rel s)" and wok: "waiters_ok s c" and c: "c \<in> dom (clients s)"
  shows "\<exists>s'. updateTransientInfo c s = Some s' \<and> graph_inv s' \<and> same_environment s s' \<and>
           (wait_target s c = None \<longrightarrow> s_transient_wait s' = s_transient_wait s)"
proof -
  from updateTransientInfo_effect [OF fin pr acyc c]
  obtain s' where s': "updateTransientInfo c s = Some s'" "same_environment s s'"
    "s_transient_wait s' = (case wait_target s c of None \<Rightarrow> s_transient_wait s
        | Some w \<Rightarrow> s_transient_wait (wait_push_back w c (removeTransientFromWaitingList c s)))"
    "transientFor s' c = link_target s c"
    "\<forall>y. y \<noteq> c \<longrightarrow> transientFor s' y = transientFor s y \<or>
        (transientFor s' y = None \<and> transientFor s y = Some c \<and>
         (\<exists>p. link_target s c = Some p \<and> (p, y) \<in> (transient_rel s)\<^sup>*) \<and>
         (c, y) \<in> (transient_rel s')\<^sup>+)"
    "acyclic (transient_rel s')"
    by (elim exE conjE) (rule that)
  have s'5: "transientFor s' y = transientFor s y \<or> transientFor s' y = None" if "y \<noteq> c" for y
    using spec [OF s'(5), of y] that by auto
  have dom': "dom (clients s') = dom (clients s)" using s'(2) by (simp add: same_environment_def)
  have wt: "wait_target s' = wait_target s" by (rule wait_target_same_environment [OF s'(2)])
  have "parents_registered s'"
    unfolding parents_registered_def
  proof (intro allI impI)
    fix y q assume yq: "transientFor s' y = Some q"
    show "q \<in> dom (clients s')"
    proof (cases "y = c")
      case True
      then show ?thesis using yq s'(4) link_target_registered dom' by simp
    next
      case False
      then have "transientFor s y = Some q" using s'5 [OF False] yq by auto
      then show ?thesis using pr dom' by (simp add: parents_registered_def)
    qed
  qed
  moreover have "\<forall>k l x. s_transient_wait s' k = Some l \<longrightarrow> x \<in> set l \<longrightarrow>
        x \<in> dom (clients s') \<and> (wait_target s' x = None \<or> wait_target s' x = Some k)"
  proof (intro allI impI)
    fix k l x assume kl: "s_transient_wait s' k = Some l" and x: "x \<in> set l"
    show "x \<in> dom (clients s') \<and> (wait_target s' x = None \<or> wait_target s' x = Some k)"
    proof (cases "wait_target s c")
      case None
      then have "s_transient_wait s k = Some l" using kl s'(3) by simp
      then show ?thesis using wok x None by (cases "x = c") (auto simp: waiters_ok_def dom' wt)
    next
      case (Some w)
      have l: "l = (if k = w then (case s_transient_wait s w of None \<Rightarrow> []
                      | Some l0 \<Rightarrow> removeAll c l0) @ [c]
                    else (case s_transient_wait s k of None \<Rightarrow> [] | Some l0 \<Rightarrow> removeAll c l0))"
        using kl s'(3) Some
        by (auto simp: wait_push_back_def removeTransientFromWaitingList_def split: option.splits if_splits)
      show ?thesis
      proof (cases "x = c")
        case True
        then have "k = w" using l x by (auto split: if_splits option.splits)
        then show ?thesis using True Some c by (simp add: dom' wt)
      next
        case False
        then obtain l0 where "s_transient_wait s k = Some l0" "x \<in> set l0"
          using l x by (auto split: if_splits option.splits)
        then show ?thesis using wok False by (auto simp: waiters_ok_def dom' wt)
      qed
    qed
  qed
  ultimately have gi': "graph_inv s'"
    using fin s'(6) by (simp add: graph_inv_def dom')
  have "wait_target s c = None \<longrightarrow> s_transient_wait s' = s_transient_wait s"
    using s'(3) by simp
  then show ?thesis using s'(1,2) gi' by (intro exI [of _ s']) simp
qed

lemma update_waiters_inv:
  assumes "graph_inv s" "set l \<subseteq> dom (clients s)" "\<forall>x \<in> set l. wait_target s x = None"
  shows "\<exists>s'. update_waiters win l s = Some s' \<and> graph_inv s' \<and> same_environment s s' \<and>
           s_transient_wait s' = s_transient_wait s"
  using assms
proof (induction l arbitrary: s)
  case Nil
  then show ?case by simp
next
  case (Cons x xs)
  have gi: "finite (dom (clients s))" "parents_registered s" "acyclic (transient_rel s)"
    using Cons.prems(1) by (simp_all add: graph_inv_def)
  have x: "x \<in> dom (clients s)" using Cons.prems(2) by simp
  from updateTransientInfo_inv [OF gi graph_inv_waiters_ok [OF Cons.prems(1)] x]
  obtain s1 where s1: "updateTransientInfo x s = Some s1" "graph_inv s1" "same_environment s s1"
      "s_transient_wait s1 = s_transient_wait s"
    using Cons.prems(3) by auto
  have "set xs \<subseteq> dom (clients s1)" using Cons.prems(2) s1(3) by (simp add: same_environment_def)
  moreover have "\<forall>y \<in> set xs. wait_target s1 y = None"
    using Cons.prems(3) wait_target_same_environment [OF s1(3)] by simp
  ultimately obtain s' where s': "update_waiters win xs s1 = Some s'" "graph_inv s'"
      "same_environment s1 s'" "s_transient_wait s' = s_transient_wait s1"
    using Cons.IH [OF s1(2)] by blast
  have "update_waiters win (x # xs) s = Some s'" using s1(1,4) s'(1) by simp
  moreover have "same_environment s s'" by (rule same_environment_trans [OF s1(3) s'(3)])
  moreover have "s_transient_wait s' = s_transient_wait s" using s'(4) s1(4) by simp
  ultimately show ?case using s'(2) by (intro exI [of _ s']) simp
qed

lemma wait_target_add_client:
  "clients s win = None \<Longrightarrow>
   wait_target (s\<lparr>clients := (clients s)(win \<mapsto> C0)\<rparr>) x =
     (if wait_target s x = Some win then None else wait_target s x)"
  by (auto simp: wait_target_def split: option.splits)

lemma transientFor_add_client:
  "clients s win = None \<Longrightarrow> transient_for C0 = None \<Longrightarrow>
   transientFor (s\<lparr>clients := (clients s)(win \<mapsto> C0)\<rparr>) = transientFor s"
  by (auto simp: transientFor_def fun_eq_iff)

lemma graph_inv_add_client:
  assumes "graph_inv s" "clients s win = None" "transient_for C0 = None"
  shows "graph_inv (s\<lparr>clients := (clients s)(win \<mapsto> C0)\<rparr>)"
proof -
  let ?s1 = "s\<lparr>clients := (clients s)(win \<mapsto> C0)\<rparr>"
  have tf: "transientFor ?s1 = transientFor s" by (rule transientFor_add_client [OF assms(2,3)])
  have "finite (dom (clients ?s1))" using assms(1) by (simp add: graph_inv_def)
  moreover have "parents_registered ?s1"
    using assms(1) by (auto simp: graph_inv_def parents_registered_def tf)
  moreover have "acyclic (transient_rel ?s1)"
    using assms(1) by (simp add: graph_inv_def transient_rel_def tf)
  moreover have "\<forall>k l x. s_transient_wait ?s1 k = Some l \<longrightarrow> x \<in> set l \<longrightarrow>
        x \<in> dom (clients ?s1) \<and> (wait_target ?s1 x = None \<or> wait_target ?s1 x = Some k)"
  proof (intro allI impI)
    fix k l x assume "s_transient_wait ?s1 k = Some l" "x \<in> set l"
    then have "x \<in> dom (clients s) \<and> (wait_target s x = None \<or> wait_target s x = Some k)"
      using assms(1) by (simp add: graph_inv_def)
    then show "x \<in> dom (clients ?s1) \<and> (wait_target ?s1 x = None \<or> wait_target ?s1 x = Some k)"
      by (auto simp: wait_target_add_client [OF assms(2)])
  qed
  ultimately show ?thesis by (simp add: graph_inv_def)
qed

lemma graph_inv_erase_wait:
  assumes "graph_inv s"
  shows "graph_inv (s\<lparr>s_transient_wait := (s_transient_wait s)(k := None)\<rparr>)"
proof -
  let ?s' = "s\<lparr>s_transient_wait := (s_transient_wait s)(k := None)\<rparr>"
  have tf: "transientFor ?s' = transientFor s" by (simp add: transientFor_def fun_eq_iff)
  have wt: "wait_target ?s' = wait_target s"
    by (simp add: wait_target_def fun_eq_iff split: option.splits)
  show ?thesis
    using assms by (auto simp: graph_inv_def parents_registered_def transient_rel_def tf wt split: if_splits)
qed

lemma WinClient_ctor_inv:
  assumes gi: "graph_inv s" and new: "clients s win = None" and C0: "transient_for C0 = None"
  shows "\<exists>s'. WinClient_ctor win C0 s = Some s' \<and> graph_inv s' \<and>
           dom (clients s') = insert win (dom (clients s)) \<and> rootWindow s' = rootWindow s"
proof -
  define s1 where "s1 = s\<lparr>clients := (clients s)(win \<mapsto> C0)\<rparr>"
  have gi1: "graph_inv s1" unfolding s1_def by (rule graph_inv_add_client [OF gi new C0])
  have dom1: "dom (clients s1) = insert win (dom (clients s))" by (simp add: s1_def)
  have root1: "rootWindow s1 = rootWindow s" by (simp add: s1_def)
  have "\<exists>s2. (case s_transient_wait s1 win of None \<Rightarrow> Some s1
              | Some l \<Rightarrow> do { s' \<leftarrow> update_waiters win l s1;
                    Some (s'\<lparr>s_transient_wait := (s_transient_wait s')(win := None)\<rparr>) }) = Some s2 \<and>
            graph_inv s2 \<and> dom (clients s2) = dom (clients s1) \<and> rootWindow s2 = rootWindow s1"
  proof (cases "s_transient_wait s1 win")
    case None
    then show ?thesis using gi1 by simp
  next
    case (Some l)
    have sub: "set l \<subseteq> dom (clients s1)" using gi1 Some by (auto simp: graph_inv_def)
    have quiet: "\<forall>x \<in> set l. wait_target s1 x = None"
    proof
      fix x assume x: "x \<in> set l"
      have "s_transient_wait s win = Some l" using Some by (simp add: s1_def)
      then have "wait_target s x = None \<or> wait_target s x = Some win"
        using gi x by (simp add: graph_inv_def)
      then show "wait_target s1 x = None"
        unfolding s1_def by (auto simp: wait_target_add_client [OF new])
    qed
    from update_waiters_inv [OF gi1 sub quiet, of win]
    obtain s' where s': "update_waiters win l s1 = Some s'" "graph_inv s'" "same_environment s1 s'"
      by (elim exE conjE) (rule that)
    let ?s2 = "s'\<lparr>s_transient_wait := (s_transient_wait s')(win := None)\<rparr>"
    have "graph_inv ?s2" by (rule graph_inv_erase_wait [OF s'(2)])
    moreover have "dom (clients ?s2) = dom (clients s1)" "rootWindow ?s2 = rootWindow s1"
      using s'(3) by (simp_all add: same_environment_def)
    ultimately show ?thesis using Some s'(1) by simp
  qed
  then obtain s2 where s2: "(case s_transient_wait s1 win of None \<Rightarrow> Some s1
              | Some l \<Rightarrow> do { s' \<leftarrow> update_waiters win l s1;
                    Some (s'\<lparr>s_transient_wait := (s_transient_wait s')(win := None)\<rparr>) }) = Some s2"
      "graph_inv s2" "dom (clients s2) = dom (clients s1)" "rootWindow s2 = rootWindow s1"
    by (elim exE conjE) (rule that)
  have gi2: "finite (dom (clients s2))" "parents_registered s2" "acyclic (transient_rel s2)"
    using s2(2) by (simp_all add: graph_inv_def)
  have win2: "win \<in> dom (clients s2)" using s2(3) dom1 by simp
  from updateTransientInfo_inv [OF gi2 graph_inv_waiters_ok [OF s2(2)] win2]
  obtain s3 where s3: "updateTransientInfo win s2 = Some s3" "graph_inv s3" "same_environment s2 s3"
    by (elim exE conjE) (rule that)
  have "WinClient_ctor win C0 s =
      (case s_transient_wait s1 win of None \<Rightarrow> Some s1
              | Some l \<Rightarrow> do { s' \<leftarrow> update_waiters win l s1;
                    Some (s'\<lparr>s_transient_wait := (s_transient_wait s')(win := None)\<rparr>) }) \<bind>
      updateTransientInfo win"
    unfolding WinClient_ctor_def Let_def s1_def by (rule refl)
  then have "WinClient_ctor win C0 s = Some s3"
    using s3(1) by (simp add: s2(1))
  moreover have "dom (clients s3) = insert win (dom (clients s))" "rootWindow s3 = rootWindow s"
    using s3(3) s2(3,4) dom1 root1 by (simp_all add: same_environment_def)
  ultimately show ?thesis using s3(2) by (intro exI [of _ s3]) simp
qed

lemma apply_operation_inv:
  assumes gi: "graph_inv s"
    and ok: "case x of Register win hint \<Rightarrow> win \<notin> dom (clients s) | Relink c hint \<Rightarrow> c \<in> dom (clients s)"
  shows "\<exists>s'. apply_operation x s = Some s' \<and> graph_inv s' \<and> rootWindow s' = rootWindow s \<and>
           dom (clients s') = (case x of Register win hint \<Rightarrow> insert win (dom (clients s))
                                | Relink c hint \<Rightarrow> dom (clients s))"
proof (cases x)
  case (Register win hint)
  let ?s0 = "s\<lparr>transient_hint := (transient_hint s)(win := hint)\<rparr>"
  have new: "clients s win = None" using ok Register by (simp add: domIff)
  have tf: "transientFor ?s0 = transientFor s" by (simp add: transientFor_def fun_eq_iff)
  have wt: "x \<noteq> win \<Longrightarrow> wait_target ?s0 x = wait_target s x" for x
    by (simp add: wait_target_def split: option.splits)
  have "\<forall>k l x. s_transient_wait ?s0 k = Some l \<longrightarrow> x \<in> set l \<longrightarrow>
        x \<in> dom (clients ?s0) \<and> (wait_target ?s0 x = None \<or> wait_target ?s0 x = Some k)"
  proof (intro allI impI)
    fix k l x assume kl: "s_transient_wait ?s0 k = Some l" "x \<in> set l"
    then have a: "x \<in> dom (clients s) \<and> (wait_target s x = None \<or> wait_target s x = Some k)"
      using gi by (simp add: graph_inv_def)
    then have "x \<noteq> win" using new by auto
    then show "x \<in> dom (clients ?s0) \<and> (wait_target ?s0 x = None \<or> wait_target ?s0 x = Some k)"
      using a by (simp add: wt)
  qed
  then have gi0: "graph_inv ?s0"
    using gi by (simp add: graph_inv_def parents_registered_def transient_rel_def tf)
  have new0: "clients ?s0 win = None" using new by simp
  have C0: "transient_for (new_client None F_PASSIVE True False) = None"
    by (simp add: new_client_def)
  from WinClient_ctor_inv [OF gi0 new0 C0]
  obtain s' where s': "WinClient_ctor win (new_client None F_PASSIVE True False) ?s0 = Some s'"
    "graph_inv s'" "dom (clients s') = insert win (dom (clients ?s0))" "rootWindow s' = rootWindow ?s0"
    by (elim exE conjE) (rule that)
  show ?thesis using Register s' by (intro exI [of _ s']) simp
next
  case (Relink c hint)
  let ?s0 = "s\<lparr>transient_hint := (transient_hint s)(c := hint)\<rparr>"
  have c: "c \<in> dom (clients ?s0)" using ok Relink by simp
  have tf: "transientFor ?s0 = transientFor s" by (simp add: transientFor_def fun_eq_iff)
  have wt: "x \<noteq> c \<Longrightarrow> wait_target ?s0 x = wait_target s x" for x
    by (simp add: wait_target_def split: option.splits)
  have wok: "waiters_ok ?s0 c"
    unfolding waiters_ok_def
  proof (intro allI impI)
    fix k l x assume kl: "s_transient_wait ?s0 k = Some l" "x \<in> set l"
    then have a: "x \<in> dom (clients s) \<and> (wait_target s x = None \<or> wait_target s x = Some k)"
      using gi by (simp add: graph_inv_def)
    then show "x \<in> dom (clients ?s0) \<and> (x \<noteq> c \<longrightarrow> wait_target ?s0 x = None \<or> wait_target ?s0 x = Some k)"
      by (simp add: wt)
  qed
  have gi0: "finite (dom (clients ?s0))" "parents_registered ?s0" "acyclic (transient_rel ?s0)"
    using gi by (simp_all add: graph_inv_def parents_registered_def transient_rel_def tf)
  from updateTransientInfo_inv [OF gi0 wok c]
  obtain s' where s': "updateTransientInfo c ?s0 = Some s'" "graph_inv s'" "same_environment ?s0 s'"
    by (elim exE conjE) (rule that)
  have "rootWindow s' = rootWindow s" "dom (clients s') = dom (clients s)"
    using s'(3) by (simp_all add: same_environment_def)
  then show ?thesis using Relink s'(1,2) by simp
qed

lemma run_inv:
  assumes "graph_inv s" "valid_operations (rootWindow s) (dom (clients s)) ops"
  shows "\<exists>s'. run ops s = Some s' \<and> graph_inv s'"
  using assms
proof (induction ops arbitrary: s)
  case Nil
  then show ?case by simp
next
  case (Cons x xs)
  have ok: "case x of Register win hint \<Rightarrow> win \<notin> dom (clients s) | Relink c hint \<Rightarrow> c \<in> dom (clients s)"
    using Cons.prems(2) by (cases x) simp_all
  from apply_operation_inv [OF Cons.prems(1) ok]
  obtain s1 where s1: "apply_operation x s = Some s1" "graph_inv s1" "rootWindow s1 = rootWindow s"
    "dom (clients s1) = (case x of Register win hint \<Rightarrow> insert win (dom (clients s))
                                | Relink c hint \<Rightarrow> dom (clients s))"
    by (elim exE conjE) (rule that)
  have "valid_operations (rootWindow s1) (dom (clients s1)) xs"
    using Cons.prems(2) s1(3,4) by (cases x) simp_all
  from Cons.IH [OF s1(2) this] s1(1) show ?case by simp
qed

lemma graph_inv_initial: "graph_inv (initial_state rw)"
  by (simp add: graph_inv_def initial_state_def parents_registered_def transientFor_def
      transient_rel_def acyclic_def)

subsection \<open>Evaluating the operations on concrete states\<close>

lemmas graph_eval = initial_state_def WinClient_ctor_def updateTransientInfo_def new_client_def
  unlink_from_parent_def update_client_def searchWindow_def wait_push_back_def
  removeTransientFromWaitingList_def break_transient_loop.simps enter_parent_list_def
  transientFor_def transientList_def addModal_def removeModal_def

lemma run_cycle_attempt:
  "(case run [Register 1 (Some 2), Register 2 (Some 1), Relink 1 (Some 2)] (initial_state 99) of
      None \<Rightarrow> False
    | Some s \<Rightarrow> transientFor s 1 = Some 2 \<and> transientFor s 2 = None)"
  by (simp add: graph_eval)

text \<open>
  Claim C1. Every sequence of register and relink operations that the window manager can
  receive runs to completion from the initial state, and in the state it reaches no chain
  of \<open>transient_for\<close> edges leads from a client back to itself.
\<close>

theorem transient_relation_acyclic:
  assumes "valid_operations rw {} ops"
  shows "\<exists>s. run ops (initial_state rw) = Some s \<and> (\<forall>c. (c, c) \<notin> (transient_rel s)\<^sup>+)"
proof -
  have "valid_operations (rootWindow (initial_state rw)) (dom (clients (initial_state rw))) ops"
    using assms by (simp add: initial_state_def)
  from run_inv [OF graph_inv_initial this]
  obtain s where s: "run ops (initial_state rw) = Some s" "graph_inv s"
    by (elim exE conjE) (rule that)
  have "\<forall>c. (c, c) \<notin> (transient_rel s)\<^sup>+"
    using s(2) by (simp add: graph_inv_def acyclic_def)
  then show ?thesis using s(1) by (intro exI [of _ s]) simp
qed

theorem transient_relation_acyclic_witness:
  "valid_operations 99 {} [Register 1 (Some 2), Register 2 (Some 1), Relink 1 (Some 2)] \<and>
   (\<exists>s. run [Register 1 (Some 2), Register 2 (Some 1), Relink 1 (Some 2)] (initial_state 99) = Some s \<and>
        (\<forall>c. (c, c) \<notin> (transient_rel s)\<^sup>+) \<and>
        transientFor s 1 = Some 2 \<and> transientFor s 2 = None)"
proof -
  have v: "valid_operations 99 {} [Register 1 (Some 2), Register 2 (Some 1), Relink 1 (Some 2)]"
    by simp
  from transient_relation_acyclic [OF v]
  obtain s where s: "run [Register 1 (Some 2), Register 2 (Some 1), Relink 1 (Some 2)] (initial_state 99) = Some s"
    "\<forall>c. (c, c) \<notin> (transient_rel s)\<^sup>+"
    by (elim exE conjE) (rule that)
  have "transientFor s 1 = Some 2 \<and> transientFor s 2 = None"
    using run_cycle_attempt s(1) by simp
  then show ?thesis using v s by (intro conjI exI [of _ s]) simp_all
qed

subsection \<open>A transient that waits for its parent\<close>












section \<open>Results: tab groups and the focus delegation\<close>

lemma update_frame_fields [simp]:
  "clients (update_frame w f s) = clients s"
  "s_transient_wait (update_frame w f s) = s_transient_wait s"
  "transient_hint (update_frame w f s) = transient_hint s"
  "rootWindow (update_frame w f s) = rootWindow s"
  "x_gone (update_frame w f s) = x_gone s"
  "shutting_down (update_frame w f s) = shutting_down s"
  "screen_focused (update_frame w f s) = screen_focused s"
  "focused_window (update_frame w f s) = focused_window s"
  "trace (update_frame w f s) = trace s"
  by (simp_all add: update_frame_def split: option.splits)

lemma frames_update_frame:
  "frames (update_frame w f s) g = (if g = w then map_option f (frames s w) else frames s g)"
  by (simp add: update_frame_def split: option.splits)

lemma emit_fields [simp]:
  "clients (emit e s) = clients s"
  "frames (emit e s) = frames s"
  "s_transient_wait (emit e s) = s_transient_wait s"
  "transient_hint (emit e s) = transient_hint s"
  "rootWindow (emit e s) = rootWindow s"
  "x_gone (emit e s) = x_gone s"
  "shutting_down (emit e s) = shutting_down s"
  "screen_focused (emit e s) = screen_focused s"
  "focused_window (emit e s) = focused_window s"
  "trace (emit e s) = trace s @ [e]"
  by (simp_all add: emit_def)

lemma shutting_down_update_client [simp]:
  "shutting_down (update_client c f s) = shutting_down s"
  by (simp add: update_client_def split: option.splits)

lemma move_onscreen_fields [simp]:
  "m_client (move_onscreen W) = m_client W"
  "m_clientlist (move_onscreen W) = m_clientlist W"
  "iconic (move_onscreen W) = iconic W"
  "oplock (move_onscreen W) = oplock W"
  "m_layernum (move_onscreen W) = m_layernum W"
  by (simp_all add: move_onscreen_def split: option.splits prod.splits)

lemma reposition_fields [simp]:
  "clients (reposition w s) = clients s"
  "s_transient_wait (reposition w s) = s_transient_wait s"
  "x_gone (reposition w s) = x_gone s"
  "shutting_down (reposition w s) = shutting_down s"
  "screen_focused (reposition w s) = screen_focused s"
  "focused_window (reposition w s) = focused_window s"
  "trace (reposition w s) = trace s"
  by (simp_all add: reposition_def)

lemma frames_reposition:
  "frames (reposition w s) g = (if g = w then map_option move_onscreen (frames s w) else frames s g)"
  by (simp add: reposition_def frames_update_frame)


lemma find_modal_none:
  "\<forall>t\<in>set ts. \<exists>T. clients s t = Some T \<and> \<not> isModal T \<Longrightarrow> find_modal s ts = Some None"
  by (induction ts) auto




lemmas frame_eval = graph_eval plain_frame_def tab_client_def modal_client_def update_frame_def
  emit_def client_raise_def sendFocus_def reposition_def move_onscreen_def offscreen_position_def
  validateClient_def focus_active_def isModal_def u32_def s32_def






















text \<open>
  Claim C10. When the active client of a frame is modal and its transient list is not
  empty but holds no modal client, \<^verbatim>\<open>setInputFocus\<close> of the frame returns false: the
  loop over the transients ends without a delegation and the branch that focuses the
  active client is not entered. No request is issued and the focused client and the
  focused frame are as before; only the frame is moved back when it lies off the screen.
\<close>

theorem modal_without_modal_transient_focuses_nobody:
  assumes "frames s w = Some W" and "m_client W = Some a" and "clients s a = Some A"
    and "isModal A" and "transients A \<noteq> []"
    and "\<forall>t\<in>set (transients A). \<exists>T. clients s t = Some T \<and> \<not> isModal T"
  shows "setInputFocus w s = Some (False, reposition w s) \<and>
         trace (reposition w s) = trace s \<and>
         screen_focused (reposition w s) = screen_focused s \<and>
         focused_window (reposition w s) = focused_window s \<and>
         clients (reposition w s) = clients s \<and>
         (\<forall>g. map_option m_client (frames (reposition w s) g) = map_option m_client (frames s g))"
proof -
  have "find_modal s (transients A) = Some None"
    using assms(6) by (rule find_modal_none)
  then have "setInputFocus w s = Some (False, reposition w s)"
    using assms(1-5) by (subst setInputFocus.simps) simp
  moreover have "\<forall>g. map_option m_client (frames (reposition w s) g) = map_option m_client (frames s g)"
    by (simp add: frames_reposition option.map_comp comp_def)
  ultimately show ?thesis by simp
qed

theorem modal_without_modal_transient_focuses_nobody_witness:
  "setInputFocus 10 modal_parent_scenario = Some (False, modal_parent_scenario) \<and>
   trace modal_parent_scenario = []"
proof -
  have r: "reposition 10 modal_parent_scenario = modal_parent_scenario"
    by (simp add: modal_parent_scenario_def frame_eval fun_eq_iff)
  have "frames modal_parent_scenario 10 = Some (plain_frame [1] 1)"
    and "m_client (plain_frame [1] 1) = Some 1"
    and "clients modal_parent_scenario 1 = Some (modal_client 10 None [2])"
    and "isModal (modal_client 10 None [2])"
    and "transients (modal_client 10 None [2]) \<noteq> []"
    and "\<forall>t\<in>set (transients (modal_client 10 None [2])).
           \<exists>T. clients modal_parent_scenario t = Some T \<and> \<not> isModal T"
    by (simp_all add: modal_parent_scenario_def frame_eval)
  from modal_without_modal_transient_focuses_nobody [OF this]
  show ?thesis by (simp add: r) (simp add: modal_parent_scenario_def frame_eval)
qed







end
